theory Spec2Isabelle
  imports Complex_Main "HOL-Library.Log_Nat"
begin

section \<open>Numbers\<close>

text \<open>
  A JavaScript \<open>number\<close> is an IEEE 754 double. The model keeps the finite ones, as the
  reals they denote; \<open>NaN\<close> and the infinities are outside the model, except for
  \<open>maxAttempts\<close>, where \<open>Infinity\<close> is the value \<open>None\<close>. The sum, difference and
  product of two numbers are the exact result rounded to the nearest double, a tie going to
  the double with the even significand. A result whose rounding reaches \<open>2 ^ 1024\<close> is an
  infinity in the source and outside the model too. Comparisons, \<open>Math.floor\<close>,
  \<open>Math.round\<close> and \<open>Math.max\<close> are exact. The one sum kept exact is \<open>retryCount + 1\<close>:
  it is a count of attempts, and the double sum is exact below \<open>2 ^ 53\<close>.
\<close>

text \<open>The nearest integer, a half going to the even one.\<close>

definition round_half_even :: "real \<Rightarrow> int" where
  "round_half_even y =
     (let n = \<lfloor>y\<rfloor>; r = y - of_int n
      in if r < 1 / 2 then n else if 1 / 2 < r then n + 1 else if even n then n else n + 1)"

text \<open>
  The integer \<open>e\<close> with \<open>2 ^ e \<le> |x| < 2 ^ (e + 1)\<close>, for \<open>x\<close> other than 0; the exponent
  of a double is this number, and \<open>- 1022\<close> for the subnormal ones.
\<close>

definition binade :: "real \<Rightarrow> int" where
  "binade x =
     (let a = \<bar>x\<bar>
      in if 1 \<le> a then bitlen \<lfloor>a\<rfloor> - 1 else - bitlen (\<lceil>1 / a\<rceil> - 1))"

definition exponent :: "real \<Rightarrow> int" where
  "exponent x = max (- 1022) (binade x)"

text \<open>The distance between the doubles around \<open>x\<close>: 52 binary places below the exponent.\<close>

definition ulp :: "real \<Rightarrow> real" where
  "ulp x = 2 powi (exponent x - 52)"

definition to_multiple :: "real \<Rightarrow> real \<Rightarrow> real" where
  "to_multiple u x = of_int (round_half_even (x / u)) * u"

text \<open>The double nearest to a real.\<close>

definition double :: "real \<Rightarrow> real" where
  "double x = (if x = 0 then 0 else to_multiple (ulp x) x)"

text \<open>The operators \<open>+\<close>, \<open>-\<close> and \<open>*\<close> of the source, on numbers.\<close>

definition plus64 :: "real \<Rightarrow> real \<Rightarrow> real" where
  "plus64 x y = double (x + y)"

definition minus64 :: "real \<Rightarrow> real \<Rightarrow> real" where
  "minus64 x y = double (x - y)"

definition times64 :: "real \<Rightarrow> real \<Rightarrow> real" where
  "times64 x y = double (x * y)"

section \<open>Data model of \<open>src/index.ts\<close>\<close>

text \<open>
  A client (a connection to one server) is identified by a natural number. A
  \<open>Set<Client>\<close> and a \<open>Map<Client, Error>\<close> are kept in insertion order, as JavaScript
  keeps them: a list without repetitions and an association list.
\<close>

type_synonym client = nat

datatype script = acquireLock | extendLock | releaseLock

datatype arg = Str string | Num real

text \<open>
  The errors a client call can end in. \<open>ResourceLockedError applied requested\<close> stands for
  the message \<open>The operation was applied to: ${result} of the ${keys.length} requested
  resources.\<close>; its two numbers are kept instead of their decimal rendering.
\<close>

datatype client_error = Error string | ResourceLockedError int nat

datatype ('a, 'e) promise = Fulfilled 'a | Rejected 'e | Pending

datatype ClientExecutionResult = VoteFor client int | VoteAgainst client client_error

datatype vote = For | Against

record ExecutionStats =
  membershipSize :: nat
  quorumSize :: nat
  votesFor :: "client list"
  votesAgainst :: "(client \<times> client_error) list"

type_synonym stats_promise = "(ExecutionStats, client_error) promise"

record ExecutionResult =
  attempts :: "stats_promise list"
  start :: real

text \<open>
  What a call can throw: a plain \<open>Error\<close> (\<open>Thrown (Error msg)\<close>) or an
  \<open>ExecutionError\<close> with its message and its list of per-attempt statistics promises.
\<close>

datatype operation_error = Thrown client_error | ExecutionError string "stats_promise list"

record Settings =
  driftFactor :: real
  retryCount :: real
  retryDelay :: real
  retryJitter :: real
  automaticExtensionThreshold :: real
  db :: real

text \<open>\<open>Partial<Settings>\<close>: every property is a number or absent (\<open>None\<close>).\<close>

record PartialSettings =
  driftFactor_opt :: "real option"
  retryCount_opt :: "real option"
  retryDelay_opt :: "real option"
  retryJitter_opt :: "real option"
  automaticExtensionThreshold_opt :: "real option"
  db_opt :: "real option"

text \<open>The default settings; the literal \<open>0.01\<close> is the double nearest to one hundredth.\<close>

definition defaultSettings :: Settings where
  "defaultSettings = \<lparr>driftFactor = double (1 / 100), retryCount = 10, retryDelay = 200,
     retryJitter = 100, automaticExtensionThreshold = 500, db = 0\<rparr>"

definition noSettings :: PartialSettings where
  "noSettings = \<lparr>driftFactor_opt = None, retryCount_opt = None, retryDelay_opt = None,
     retryJitter_opt = None, automaticExtensionThreshold_opt = None, db_opt = None\<rparr>"

text \<open>
  A \<open>Lock\<close> object. The back-reference \<open>redlock\<close> only serves the sugar methods
  \<open>Lock.release\<close> and \<open>Lock.extend\<close> and is left out; \<open>expiration\<close> is the one mutable
  field. Lock objects live in a heap, addressed by natural numbers, because \<open>release\<close> and
  \<open>extend\<close> write to the object they are handed.
\<close>

record Lock =
  resources :: "string list"
  lock_value :: string
  lock_attempts :: "stats_promise list"
  expiration :: real
  lock_settings :: "PartialSettings option"

record Redlock =
  clients :: "client list"
  settings :: Settings

text \<open>
  The world a call runs in: the heap of \<open>Lock\<close> objects with its allocation pointer, the
  trace of what the library did, in the order in which it did it (the remote commands it
  issued, the delays it slept, and the assignments to the \<open>expiration\<close> of an existing
  lock, with the address of the lock and the value assigned), and the number of attempts
  started so far, which indexes the environment.
\<close>

datatype event =
  Call client script "string list" "arg list"
  | Sleep real
  | SetExpiration nat real

record world =
  heap :: "nat \<Rightarrow> Lock"
  next_ref :: nat
  trace :: "event list"
  tick :: nat

text \<open>
  What the environment decides for one attempt: the value of \<open>Date.now()\<close> at its start,
  the client promises in the order in which they settle, each with what the client call
  ended in, and the sample of \<open>Math.random()\<close> used for the delay after the attempt.
\<close>

datatype reply =
    ReplyNumber int
  | ReplyOther string
  | ThrowsError client_error
  | ThrowsOther string string

record attempt_env =
  now :: real
  settles :: "(client \<times> reply) list"
  random :: real

section \<open>Sets and maps in insertion order\<close>

definition Set_add :: "'a list \<Rightarrow> 'a \<Rightarrow> 'a list" where
  "Set_add s x = (if x \<in> set s then s else s @ [x])"

definition new_Set :: "'a list \<Rightarrow> 'a list" where
  "new_Set xs = foldl Set_add [] xs"

fun Map_set :: "('k \<times> 'v) list \<Rightarrow> 'k \<Rightarrow> 'v \<Rightarrow> ('k \<times> 'v) list" where
  "Map_set [] k v = [(k, v)]"
| "Map_set ((k', v') # m) k v = (if k' = k then (k, v) # m else (k', v') # Map_set m k v)"

section \<open>The constructor\<close>

text \<open>
  \<open>new Redlock(clients, settings)\<close>: the clients are stored in a \<open>Set\<close>; an empty set is
  refused. Each setting is taken when it is a number, \<open>db\<close> only when it is an integer
  between 0 and 15.
\<close>

definition pick :: "real option \<Rightarrow> real \<Rightarrow> real" where
  "pick given dflt = (case given of Some x \<Rightarrow> x | None \<Rightarrow> dflt)"

definition pick_db :: "real option \<Rightarrow> real" where
  "pick_db given =
     (case given of
        Some x \<Rightarrow> if of_int \<lfloor>x\<rfloor> = x \<and> 0 \<le> x \<and> x \<le> 15 then x else db defaultSettings
      | None \<Rightarrow> db defaultSettings)"

definition constructor :: "client list \<Rightarrow> PartialSettings \<Rightarrow> client_error + Redlock" where
  "constructor cs s =
     (let cl = new_Set cs in
      if length cl = 0
      then Inl (Error ''Redlock must be instantiated with at least one redis client.'')
      else Inr \<lparr>clients = cl,
                settings = \<lparr>
                  driftFactor = pick (driftFactor_opt s) (driftFactor defaultSettings),
                  retryCount = pick (retryCount_opt s) (retryCount defaultSettings),
                  retryDelay = pick (retryDelay_opt s) (retryDelay defaultSettings),
                  retryJitter = pick (retryJitter_opt s) (retryJitter defaultSettings),
                  automaticExtensionThreshold =
                    pick (automaticExtensionThreshold_opt s)
                      (automaticExtensionThreshold defaultSettings),
                  db = pick_db (db_opt s)\<rparr>\<rparr>)"

section \<open>One client: \<open>_attemptOperationOnClient\<close>\<close>

text \<open>
  \<open>ensureCommands\<close> installs the three Lua scripts of \<open>scripts.ts\<close> on the client when
  they are missing; the scripts run on the server. The remote command is called with
  \<open>keys.length\<close>, the keys and the arguments; the model receives what that call ended in:
  a number (Redis replies with an integer), a value of another type, a thrown \<open>Error\<close>, or
  a thrown value that is no \<open>Error\<close> (with its \<open>typeof\<close> and its rendering). A reply that is not a number, and a number different
  from \<open>keys.length\<close>, are thrown and caught again: the vote is against. Only a thrown value
  that is not an \<open>Error\<close> leaves the function, as a rejection. The \<open>error\<close> event emitted
  on the way has a no-op listener by default and is not modelled.
\<close>

definition attemptOperationOnClient ::
  "client \<Rightarrow> script \<Rightarrow> string list \<Rightarrow> arg list \<Rightarrow> reply
     \<Rightarrow> (ClientExecutionResult, client_error) promise" where
  "attemptOperationOnClient c scr keys args r =
     (case r of
        ReplyNumber result \<Rightarrow>
          if result \<noteq> int (length keys)
          then Fulfilled (VoteAgainst c (ResourceLockedError result (length keys)))
          else Fulfilled (VoteFor c result)
      | ReplyOther ty \<Rightarrow>
          Fulfilled (VoteAgainst c
            (Error (''Unexpected result of type '' @ ty @ '' returned from redis.'')))
      | ThrowsError e \<Rightarrow> Fulfilled (VoteAgainst c e)
      | ThrowsOther ty v \<Rightarrow>
          Rejected (Error (''Unexpected type '' @ ty @ '' thrown with value: '' @ v)))"

section \<open>One attempt: \<open>_attemptOperation\<close>\<close>

text \<open>
  The state of an attempt while results arrive: the statistics, what the attempt's promise
  has been resolved with (a promise keeps its first resolution), and whether \<open>done()\<close> has
  run, which fulfils the statistics promise.
\<close>

record attempt_state =
  stats :: ExecutionStats
  resolution :: "vote option"
  completed :: bool

definition resolve :: "vote \<Rightarrow> vote option \<Rightarrow> vote option" where
  "resolve v r = (case r of None \<Rightarrow> Some v | Some v' \<Rightarrow> Some v')"

definition tally :: "ExecutionStats \<Rightarrow> ClientExecutionResult \<Rightarrow> ExecutionStats" where
  "tally s r =
     (case r of
        VoteFor c n \<Rightarrow> s\<lparr>votesFor := Set_add (votesFor s) c\<rparr>
      | VoteAgainst c e \<Rightarrow> s\<lparr>votesAgainst := Map_set (votesAgainst s) c e\<rparr>)"

definition onResultResolve :: "attempt_state \<Rightarrow> ClientExecutionResult \<Rightarrow> attempt_state" where
  "onResultResolve st clientResult =
     (let s = tally (stats st) clientResult;
          r1 = (if length (votesFor s) = quorumSize s
                then resolve For (resolution st) else resolution st);
          r2 = (if length (votesAgainst s) = quorumSize s
                then resolve Against r1 else r1);
          d = (if length (votesFor s) + length (votesAgainst s) = membershipSize s
               then True else completed st)
      in \<lparr>stats = s, resolution = r2, completed = d\<rparr>)"

text \<open>
  The client promises settle one after the other. A promise settles once: an entry for a
  client whose promise is not pending (or that is no client of this attempt) is no event and
  is passed over. A rejected client promise reaches \<open>onResultReject\<close>, which throws inside
  the handler: nothing is tallied.
\<close>

fun settle ::
  "script \<Rightarrow> string list \<Rightarrow> arg list \<Rightarrow> client list \<Rightarrow> (client \<times> reply) list
     \<Rightarrow> attempt_state \<Rightarrow> attempt_state" where
  "settle scr keys args pending [] st = st"
| "settle scr keys args pending ((c, r) # es) st =
     (if c \<in> set pending
      then settle scr keys args (removeAll c pending) es
             (case attemptOperationOnClient c scr keys args r of
                Fulfilled res \<Rightarrow> onResultResolve st res
              | Rejected e \<Rightarrow> st
              | Pending \<Rightarrow> st)
      else settle scr keys args pending es st)"

definition initial_state :: "Redlock \<Rightarrow> attempt_state" where
  "initial_state rl =
     \<lparr>stats = \<lparr>membershipSize = length (clients rl),
               quorumSize = length (clients rl) div 2 + 1,
               votesFor = [], votesAgainst = []\<rparr>,
      resolution = None, completed = False\<rparr>"

definition collect :: "Redlock \<Rightarrow> script \<Rightarrow> string list \<Rightarrow> arg list \<Rightarrow> attempt_env \<Rightarrow> attempt_state" where
  "collect rl scr keys args e = settle scr keys args (clients rl) (settles e) (initial_state rl)"

definition stats_handle :: "attempt_state \<Rightarrow> stats_promise" where
  "stats_handle st = (if completed st then Fulfilled (stats st) else Pending)"

text \<open>
  The attempt reads the clock, issues the command on every client and waits for its promise
  to be resolved: \<open>None\<close> when no threshold is ever met, so that the promise stays pending.
\<close>

definition attemptOperation ::
  "Redlock \<Rightarrow> script \<Rightarrow> string list \<Rightarrow> arg list \<Rightarrow> (nat \<Rightarrow> attempt_env) \<Rightarrow> world
     \<Rightarrow> world \<times> (vote \<times> stats_promise \<times> real) option" where
  "attemptOperation rl scr keys args env w =
     (let e = env (tick w);
          w1 = w\<lparr>trace := trace w @ map (\<lambda>c. Call c scr keys args) (clients rl),
                 tick := Suc (tick w)\<rparr>;
          st = collect rl scr keys args e
      in (w1, map_option (\<lambda>v. (v, stats_handle st, now e)) (resolution st)))"

section \<open>The retry loop: \<open>_execute\<close>\<close>

text \<open>
  The settings of a call: the instance's settings, overridden by the properties present in
  the per-call settings (an object spread). A property present with the value
  \<open>undefined\<close> is outside the model.
\<close>

definition merge :: "Settings \<Rightarrow> PartialSettings option \<Rightarrow> Settings" where
  "merge s given =
     (case given of
        None \<Rightarrow> s
      | Some p \<Rightarrow>
          \<lparr>driftFactor = pick (driftFactor_opt p) (driftFactor s),
           retryCount = pick (retryCount_opt p) (retryCount s),
           retryDelay = pick (retryDelay_opt p) (retryDelay s),
           retryJitter = pick (retryJitter_opt p) (retryJitter s),
           automaticExtensionThreshold =
             pick (automaticExtensionThreshold_opt p) (automaticExtensionThreshold s),
           db = pick (db_opt p) (db s)\<rparr>)"

text \<open>\<open>maxAttempts\<close>; \<open>None\<close> is \<open>Infinity\<close>.\<close>

definition maxAttempts :: "Settings \<Rightarrow> real option" where
  "maxAttempts s = (if retryCount s = - 1 then None else Some (retryCount s + 1))"

text \<open>\<open>attempts.length < maxAttempts\<close>\<close>

definition below :: "nat \<Rightarrow> real option \<Rightarrow> bool" where
  "below n m = (case m of None \<Rightarrow> True | Some x \<Rightarrow> real n < x)"

text \<open>The delay before the next attempt, from a sample \<open>u\<close> of \<open>Math.random()\<close>.\<close>

definition delay :: "real \<Rightarrow> real \<Rightarrow> real \<Rightarrow> real" where
  "delay rd rj u =
     max 0 (plus64 rd (of_int \<lfloor>times64 (minus64 (times64 u 2) 1) rj\<rfloor>))"

definition quorum_failed :: string where
  "quorum_failed = ''The operation was unable to achieve a quorum during its retry window.''"

text \<open>
  The \<open>while\<close> loop of \<open>_execute\<close>, with the list of attempts made so far. It reads three
  things of the call's settings: \<open>maxAttempts\<close>, \<open>retryDelay\<close> and \<open>retryJitter\<close>. The
  loop has no bound when \<open>maxAttempts\<close> is \<open>Infinity\<close>, so the function is partial: \<open>None\<close>
  is a loop that runs forever. An attempt whose promise stays pending leaves the call
  pending.
\<close>

partial_function (option) execute_loop ::
  "Redlock \<Rightarrow> script \<Rightarrow> string list \<Rightarrow> arg list \<Rightarrow> real option \<Rightarrow> real \<Rightarrow> real
     \<Rightarrow> (nat \<Rightarrow> attempt_env) \<Rightarrow> stats_promise list \<Rightarrow> world
     \<Rightarrow> (world \<times> (ExecutionResult, operation_error) promise) option" where
  "execute_loop rl command keys args m rd rj env atts w =
     (if below (length atts) m
      then (case attemptOperation rl command keys args env w of
              (w1, None) \<Rightarrow> Some (w1, Pending)
            | (w1, Some (v, st, t)) \<Rightarrow>
                (if v = For
                 then Some (w1, Fulfilled \<lparr>attempts = atts @ [st], start = t\<rparr>)
                 else execute_loop rl command keys args m rd rj env (atts @ [st])
                        (if below (length (atts @ [st])) m
                         then w1\<lparr>trace := trace w1 @ [Sleep (delay rd rj (random (env (tick w))))]\<rparr>
                         else w1)))
      else Some (w, Rejected (ExecutionError quorum_failed atts)))"

definition execute ::
  "Redlock \<Rightarrow> script \<Rightarrow> string list \<Rightarrow> arg list \<Rightarrow> PartialSettings option
     \<Rightarrow> (nat \<Rightarrow> attempt_env) \<Rightarrow> world
     \<Rightarrow> (world \<times> (ExecutionResult, operation_error) promise) option" where
  "execute rl command keys args given env w =
     (let s = merge (settings rl) given
      in execute_loop rl command keys args (maxAttempts s) (retryDelay s) (retryJitter s)
           env [] w)"

text \<open>
  The same loop watched for at most \<open>n\<close> turns: the world it has reached, and what it
  returned if it has returned by then (\<open>None\<close>: it is still running). This gives the
  state of a call that never returns.
\<close>

fun execute_loop_upto ::
  "nat \<Rightarrow> Redlock \<Rightarrow> script \<Rightarrow> string list \<Rightarrow> arg list \<Rightarrow> real option \<Rightarrow> real \<Rightarrow> real
     \<Rightarrow> (nat \<Rightarrow> attempt_env) \<Rightarrow> stats_promise list \<Rightarrow> world
     \<Rightarrow> world \<times> (ExecutionResult, operation_error) promise option" where
  "execute_loop_upto 0 rl command keys args m rd rj env atts w = (w, None)"
| "execute_loop_upto (Suc n) rl command keys args m rd rj env atts w =
     (if below (length atts) m
      then (case attemptOperation rl command keys args env w of
              (w1, None) \<Rightarrow> (w1, Some Pending)
            | (w1, Some (v, st, t)) \<Rightarrow>
                (if v = For
                 then (w1, Some (Fulfilled \<lparr>attempts = atts @ [st], start = t\<rparr>))
                 else execute_loop_upto n rl command keys args m rd rj env (atts @ [st])
                        (if below (length (atts @ [st])) m
                         then w1\<lparr>trace := trace w1 @ [Sleep (delay rd rj (random (env (tick w))))]\<rparr>
                         else w1)))
      else (w, Some (Rejected (ExecutionError quorum_failed atts))))"

definition execute_upto ::
  "nat \<Rightarrow> Redlock \<Rightarrow> script \<Rightarrow> string list \<Rightarrow> arg list \<Rightarrow> PartialSettings option
     \<Rightarrow> (nat \<Rightarrow> attempt_env) \<Rightarrow> world
     \<Rightarrow> world \<times> (ExecutionResult, operation_error) promise option" where
  "execute_upto n rl command keys args given env w =
     (let s = merge (settings rl) given
      in execute_loop_upto n rl command keys args (maxAttempts s) (retryDelay s) (retryJitter s)
           env [] w)"

section \<open>The lock manager: \<open>acquire\<close>, \<open>release\<close>, \<open>extend\<close>\<close>

definition not_integer :: string where
  "not_integer = ''Duration must be an integer value in milliseconds.''"

definition already_expired :: string where
  "already_expired = ''Cannot extend an already-expired lock.''"

text \<open>\<open>settings?.driftFactor ?? this.settings.driftFactor\<close>\<close>

definition effective_driftFactor :: "Redlock \<Rightarrow> PartialSettings option \<Rightarrow> real" where
  "effective_driftFactor rl given =
     (case given of
        None \<Rightarrow> driftFactor (settings rl)
      | Some p \<Rightarrow> pick (driftFactor_opt p) (driftFactor (settings rl)))"

text \<open>\<open>Math.round(f * duration) + 2\<close>; \<open>Math.round\<close> rounds a half up, as \<open>round\<close> does.\<close>

definition drift :: "real \<Rightarrow> real \<Rightarrow> real" where
  "drift f duration = plus64 (of_int (round (times64 f duration))) 2"

text \<open>\<open>start + duration - drift\<close>, evaluated from the left.\<close>

definition expires :: "real \<Rightarrow> real \<Rightarrow> real \<Rightarrow> real" where
  "expires t duration dr = minus64 (plus64 t duration) dr"

text \<open>\<open>new Lock(...)\<close>: the object is put at the next free address, which is returned.\<close>

definition new_Lock :: "Lock \<Rightarrow> world \<Rightarrow> world \<times> nat" where
  "new_Lock l w = (w\<lparr>heap := (heap w)(next_ref w := l), next_ref := Suc (next_ref w)\<rparr>, next_ref w)"

text \<open>\<open>lock.expiration = x\<close>, for the lock at address \<open>r\<close>.\<close>

definition set_expiration :: "nat \<Rightarrow> real \<Rightarrow> world \<Rightarrow> world" where
  "set_expiration r x w =
     w\<lparr>heap := (heap w)(r := (heap w r)\<lparr>expiration := x\<rparr>),
       trace := trace w @ [SetExpiration r x]\<rparr>"

text \<open>
  \<open>acquire\<close>; \<open>v\<close> is the value \<open>this._random()\<close> returned. When \<open>_execute\<close> throws, one
  release is attempted with \<open>retryCount: 0\<close>, its error is ignored, and the first error is
  thrown again.
\<close>

definition acquire ::
  "Redlock \<Rightarrow> string list \<Rightarrow> real \<Rightarrow> PartialSettings option \<Rightarrow> string
     \<Rightarrow> (nat \<Rightarrow> attempt_env) \<Rightarrow> world \<Rightarrow> (world \<times> (nat, operation_error) promise) option" where
  "acquire rl res duration given v env w =
     (if of_int \<lfloor>duration\<rfloor> \<noteq> duration
      then Some (w, Rejected (Thrown (Error not_integer)))
      else
        (case execute rl acquireLock res [Num (db (settings rl)), Str v, Num duration] given env w of
           None \<Rightarrow> None
         | Some (w1, Pending) \<Rightarrow> Some (w1, Pending)
         | Some (w1, Fulfilled r) \<Rightarrow>
             (case new_Lock \<lparr>resources = res, lock_value = v, lock_attempts = attempts r,
                     expiration = expires (start r) duration
                       (drift (effective_driftFactor rl given) duration),
                     lock_settings = given\<rparr> w1 of
                (w2, l) \<Rightarrow> Some (w2, Fulfilled l))
         | Some (w1, Rejected err) \<Rightarrow>
             (case execute rl releaseLock res [Num (db (settings rl)), Str v]
                     (Some (noSettings\<lparr>retryCount_opt := Some 0\<rparr>)) env w1 of
                None \<Rightarrow> None
              | Some (w2, Pending) \<Rightarrow> Some (w2, Pending)
              | Some (w2, Fulfilled r) \<Rightarrow> Some (w2, Rejected err)
              | Some (w2, Rejected err2) \<Rightarrow> Some (w2, Rejected err))))"

text \<open>\<open>release\<close>: the lock is invalidated, then the release is attempted.\<close>

definition release ::
  "Redlock \<Rightarrow> nat \<Rightarrow> PartialSettings option \<Rightarrow> (nat \<Rightarrow> attempt_env) \<Rightarrow> world
     \<Rightarrow> (world \<times> (ExecutionResult, operation_error) promise) option" where
  "release rl l given env w =
     (let w0 = set_expiration l 0 w
      in execute rl releaseLock (resources (heap w0 l))
           [Num (db (settings rl)), Str (lock_value (heap w0 l))] given env w0)"

text \<open>\<open>release\<close>, with its loop watched for at most \<open>n\<close> turns.\<close>

definition release_upto ::
  "nat \<Rightarrow> Redlock \<Rightarrow> nat \<Rightarrow> PartialSettings option \<Rightarrow> (nat \<Rightarrow> attempt_env) \<Rightarrow> world
     \<Rightarrow> world \<times> (ExecutionResult, operation_error) promise option" where
  "release_upto n rl l given env w =
     (let w0 = set_expiration l 0 w
      in execute_upto n rl releaseLock (resources (heap w0 l))
           [Num (db (settings rl)), Str (lock_value (heap w0 l))] given env w0)"

text \<open>\<open>extend\<close>; \<open>clock\<close> is the value of \<open>Date.now()\<close> read by the expiry check.\<close>

definition extend ::
  "Redlock \<Rightarrow> nat \<Rightarrow> real \<Rightarrow> PartialSettings option \<Rightarrow> real
     \<Rightarrow> (nat \<Rightarrow> attempt_env) \<Rightarrow> world \<Rightarrow> (world \<times> (nat, operation_error) promise) option" where
  "extend rl existing duration given clock env w =
     (if of_int \<lfloor>duration\<rfloor> \<noteq> duration
      then Some (w, Rejected (Thrown (Error not_integer)))
      else if expiration (heap w existing) < clock
      then Some (w, Rejected (ExecutionError already_expired []))
      else
        (case execute rl extendLock (resources (heap w existing))
                [Num (db (settings rl)), Str (lock_value (heap w existing)), Num duration]
                given env w of
           None \<Rightarrow> None
         | Some (w1, Pending) \<Rightarrow> Some (w1, Pending)
         | Some (w1, Rejected err) \<Rightarrow> Some (w1, Rejected err)
         | Some (w1, Fulfilled r) \<Rightarrow>
             (let w2 = set_expiration existing 0 w1 in
              case new_Lock \<lparr>resources = resources (heap w2 existing),
                      lock_value = lock_value (heap w2 existing),
                      lock_attempts = attempts r,
                      expiration = expires (start r) duration
                        (drift (effective_driftFactor rl given) duration),
                      lock_settings = given\<rparr> w2 of
                (w3, l) \<Rightarrow> Some (w3, Fulfilled l))))"

section \<open>Notions used by the properties\<close>

text \<open>The decision of the attempt that the environment \<open>e\<close> describes.\<close>

definition decision :: "Redlock \<Rightarrow> script \<Rightarrow> string list \<Rightarrow> arg list \<Rightarrow> attempt_env \<Rightarrow> vote option" where
  "decision rl scr keys args e = resolution (collect rl scr keys args e)"

text \<open>
  The events a run of \<open>_execute\<close> may add to the trace: the given command with the given
  keys and arguments on a client of the instance, and delays.
\<close>

definition own_event :: "Redlock \<Rightarrow> script \<Rightarrow> string list \<Rightarrow> arg list \<Rightarrow> event \<Rightarrow> bool" where
  "own_event rl scr keys args e =
     (case e of
        Call c s k a \<Rightarrow> c \<in> set (clients rl) \<and> s = scr \<and> k = keys \<and> a = args
      | Sleep d \<Rightarrow> True
      | SetExpiration r x \<Rightarrow> False)"

text \<open>
  The clients that have voted, and the invariant of the tally while \<open>pending\<close> are the
  clients whose promise has not settled: nobody is counted twice, nobody votes both ways,
  and only clients of the instance vote.
\<close>

definition voters :: "ExecutionStats \<Rightarrow> client set" where
  "voters s = set (votesFor s) \<union> fst ` set (votesAgainst s)"

definition tally_ok :: "client list \<Rightarrow> client list \<Rightarrow> ExecutionStats \<Rightarrow> bool" where
  "tally_ok cl pending s =
     (distinct (votesFor s) \<and> distinct (map fst (votesAgainst s))
      \<and> set (votesFor s) \<inter> fst ` set (votesAgainst s) = {}
      \<and> voters s \<inter> set pending = {}
      \<and> voters s \<union> set pending \<subseteq> set cl)"

text \<open>The tally of an attempt in which every vote so far was against.\<close>

definition against_only :: "client list \<Rightarrow> attempt_state \<Rightarrow> bool" where
  "against_only pending st =
     (votesFor (stats st) = []
      \<and> fst ` set (votesAgainst (stats st)) \<inter> set pending = {}
      \<and> length (votesAgainst (stats st)) + card (set pending) = membershipSize (stats st)
      \<and> 0 < quorumSize (stats st) \<and> quorumSize (stats st) \<le> membershipSize (stats st)
      \<and> resolution st = (if quorumSize (stats st) \<le> length (votesAgainst (stats st))
                         then Some Against else None))"

text \<open>
  The tally while every settled promise brought a vote: with the clients still pending the
  votes add up to the number of clients, and a count that has reached the quorum size has
  resolved the attempt.
\<close>

definition counting :: "client list \<Rightarrow> client list \<Rightarrow> attempt_state \<Rightarrow> bool" where
  "counting cl pending st =
     (tally_ok cl pending (stats st)
      \<and> length (votesFor (stats st)) + length (votesAgainst (stats st)) + card (set pending)
          = membershipSize (stats st)
      \<and> (quorumSize (stats st) \<le> length (votesFor (stats st))
           \<or> quorumSize (stats st) \<le> length (votesAgainst (stats st))
          \<longrightarrow> resolution st \<noteq> None))"

subsection \<open>Concrete inputs\<close>

text \<open>
  An instance over one server with the default settings, a heap with one lock on the
  resource \<open>r\<close>, and environments in which the server gives the same reply in every attempt.
\<close>

definition rl1 :: Redlock where
  "rl1 = \<lparr>clients = [0], settings = defaultSettings\<rparr>"

definition lock1 :: Lock where
  "lock1 = \<lparr>resources = [''r''], lock_value = ''v'', lock_attempts = [],
     expiration = 5000, lock_settings = None\<rparr>"

definition world1 :: world where
  "world1 = \<lparr>heap = (\<lambda>_. lock1), next_ref = 1, trace = [], tick = 0\<rparr>"

definition env_reply :: "reply \<Rightarrow> nat \<Rightarrow> attempt_env" where
  "env_reply r = (\<lambda>_. \<lparr>now = 1000, settles = [(0, r)], random = 1 / 2\<rparr>)"

text \<open>Per-call settings with \<open>retryCount\<close> alone.\<close>

definition retries :: "real \<Rightarrow> PartialSettings option" where
  "retries k = Some (noSettings\<lparr>retryCount_opt := Some k\<rparr>)"

text \<open>Every client of the instance answers in the attempt, and every answer is \<open>r\<close>.\<close>

definition all_reply :: "Redlock \<Rightarrow> reply \<Rightarrow> attempt_env \<Rightarrow> bool" where
  "all_reply rl r e = (set (clients rl) \<subseteq> fst ` set (settles e) \<and> snd ` set (settles e) \<subseteq> {r})"

text \<open>What a call ended in, and the world it left.\<close>

definition outcome :: "(world \<times> 'a) option \<Rightarrow> 'a option" where
  "outcome x = map_option snd x"

definition world_after :: "(world \<times> 'a) option \<Rightarrow> world" where
  "world_after x = fst (the x)"

text \<open>
  The server deletes the one key in the first attempt and finds nothing to delete afterwards.
\<close>

definition env_twice :: "nat \<Rightarrow> attempt_env" where
  "env_twice i = \<lparr>now = 1000, settles = [(0, ReplyNumber (if i = 0 then 1 else 0))], random = 1 / 2\<rparr>"

text \<open>The statistics of an attempt on one server, by its vote.\<close>

definition voted_against :: "client_error \<Rightarrow> stats_promise" where
  "voted_against e = Fulfilled \<lparr>membershipSize = 1, quorumSize = 1, votesFor = [],
     votesAgainst = [(0, e)]\<rparr>"

definition voted_for :: stats_promise where
  "voted_for = Fulfilled \<lparr>membershipSize = 1, quorumSize = 1, votesFor = [0],
     votesAgainst = []\<rparr>"


text \<open>
  The first argument of a remote command is the number \<open>x\<close> (delays and assignments
  carry no argument).
\<close>

definition sends_db :: "real \<Rightarrow> event \<Rightarrow> bool" where
  "sends_db x e =
     (case e of
        Call c s k a \<Rightarrow> (case a of [] \<Rightarrow> False | y # ys \<Rightarrow> y = Num x)
      | Sleep d \<Rightarrow> True
      | SetExpiration r y \<Rightarrow> True)"

text \<open>
  A number of the model stands for a finite double when it is below \<open>2 ^ 1024\<close> in
  magnitude. The expiration of a new lock takes four operations (the product, the sum for
  the drift, the sum of start and duration, the difference); when none of the four results
  overflows, the source computes what the model computes.
\<close>

definition finite64 :: "real \<Rightarrow> bool" where
  "finite64 x = (\<bar>x\<bar> < 2 ^ 1024)"

definition no_overflow :: "real \<Rightarrow> real \<Rightarrow> real \<Rightarrow> bool" where
  "no_overflow t d f =
     (finite64 (times64 f d) \<and> finite64 (plus64 t d) \<and> finite64 (drift f d)
      \<and> finite64 (expires t d (drift f d)))"

text \<open>Per-call settings with a drift factor of 0 alone.\<close>

definition no_drift :: "PartialSettings option" where
  "no_drift = Some (noSettings\<lparr>driftFactor_opt := Some 0\<rparr>)"

text \<open>What a call added to the outside, with what it ended in: the trace and the outcome.\<close>

definition sent :: "(world \<times> 'a) option \<Rightarrow> (event list \<times> 'a) option" where
  "sent x = map_option (\<lambda>(w, out). (trace w, out)) x"

text \<open>Per-call settings that name another database.\<close>

definition other_db :: "PartialSettings" where
  "other_db = noSettings\<lparr>db_opt := Some 7\<rparr>"

text \<open>
  An instance over two servers, and an environment in which the first server answers 1 (the
  key was set) and the second answers 0 (the key exists there), in every attempt.
\<close>

definition rl2 :: Redlock where
  "rl2 = \<lparr>clients = [0, 1], settings = defaultSettings\<rparr>"

definition env_split :: "nat \<Rightarrow> attempt_env" where
  "env_split = (\<lambda>_. \<lparr>now = 1000, settles = [(0, ReplyNumber 1), (1, ReplyNumber 0)],
     random = 1 / 2\<rparr>)"

section \<open>Properties\<close>

subsection \<open>Rounding to the nearest double\<close>

lemma round_half_even_int [simp]: "round_half_even (of_int n) = n"
  by (simp add: round_half_even_def)

lemma round_half_even_range:
  "\<lfloor>y\<rfloor> \<le> round_half_even y" "round_half_even y \<le> \<lfloor>y\<rfloor> + 1"
  by (simp_all add: round_half_even_def Let_def)

lemma round_half_even_mono:
  assumes "x \<le> y" shows "round_half_even x \<le> round_half_even y"
proof (cases "\<lfloor>x\<rfloor> = \<lfloor>y\<rfloor>")
  case False
  with assms have "\<lfloor>x\<rfloor> + 1 \<le> \<lfloor>y\<rfloor>" using floor_mono [OF assms] by linarith
  with round_half_even_range(2) [of x] round_half_even_range(1) [of y] show ?thesis by linarith
next
  case True
  with assms have "x - of_int \<lfloor>x\<rfloor> \<le> y - of_int \<lfloor>y\<rfloor>" by simp
  with True show ?thesis by (auto simp: round_half_even_def Let_def)
qed

lemma to_multiple_mono: "0 < u \<Longrightarrow> x \<le> y \<Longrightarrow> to_multiple u x \<le> to_multiple u y"
  by (simp add: to_multiple_def round_half_even_mono divide_right_mono)

lemma to_multiple_exact: "u \<noteq> 0 \<Longrightarrow> to_multiple u (of_int k * u) = of_int k * u"
  by (simp add: to_multiple_def)

lemma to_multiple_ge: "0 < u \<Longrightarrow> of_int k * u \<le> x \<Longrightarrow> of_int k * u \<le> to_multiple u x"
  using to_multiple_mono [of u "of_int k * u" x] by (simp add: to_multiple_exact)

lemma to_multiple_le: "0 < u \<Longrightarrow> x \<le> of_int k * u \<Longrightarrow> to_multiple u x \<le> of_int k * u"
  using to_multiple_mono [of u x "of_int k * u"] by (simp add: to_multiple_exact)

lemma pow2_le_of_int: "(2::int) ^ k \<le> n \<Longrightarrow> (2::real) ^ k \<le> of_int n"
proof -
  assume "(2::int) ^ k \<le> n"
  then have "(of_int ((2::int) ^ k) :: real) \<le> of_int n" by (simp only: of_int_le_iff)
  then show ?thesis by simp
qed

lemma of_int_less_pow2: "n < (2::int) ^ k \<Longrightarrow> of_int n + 1 \<le> (2::real) ^ k"
proof -
  assume "n < (2::int) ^ k"
  then have "n + 1 \<le> 2 ^ k" by simp
  then have "(of_int (n + 1) :: real) \<le> of_int ((2::int) ^ k)" by (simp only: of_int_le_iff)
  then show ?thesis by simp
qed

lemma binade_bounds:
  assumes "x \<noteq> 0"
  shows "2 powi binade x \<le> \<bar>x\<bar>" and "\<bar>x\<bar> < 2 powi (binade x + 1)"
proof -
  define a where "a = \<bar>x\<bar>"
  from assms have pos: "0 < a" by (simp add: a_def)
  have "2 powi binade x \<le> a \<and> a < 2 powi (binade x + 1)"
  proof (cases "1 \<le> a")
    case True
    define n where "n = \<lfloor>a\<rfloor>"
    define k where "k = nat (bitlen n - 1)"
    from True have n: "0 < n" unfolding n_def by linarith
    from n have b1: "1 \<le> bitlen n" by (auto simp: bitlen_alt_def)
    then have k: "bitlen n - 1 = int k" "nat (bitlen n) = Suc k" by (simp_all add: k_def)
    note bb = bitlen_bounds [OF n]
    have i1: "(2::int) ^ k \<le> n" using bb unfolding k_def by simp
    have i2: "n < 2 ^ Suc k" using bb unfolding k(2) by simp
    have lo: "(2::real) ^ k \<le> of_int n" by (rule pow2_le_of_int [OF i1])
    have hi: "of_int n + 1 \<le> (2::real) ^ Suc k" by (rule of_int_less_pow2 [OF i2])
    have e: "binade x = int k" using True k(1) by (simp add: binade_def a_def n_def)
    have fl: "of_int n \<le> a" "a < of_int n + 1" unfolding n_def by linarith+
    have p1: "(2::real) powi (int k) = 2 ^ k" by simp
    have p2: "(2::real) powi (int k + 1) = 2 ^ Suc k"
      using power_int_of_nat [of "2::real" "Suc k"] by (simp only: of_nat_Suc add.commute)
    from lo hi fl show ?thesis unfolding e p1 p2 by linarith
  next
    case False
    define y where "y = 1 / a"
    define m where "m = \<lceil>y\<rceil> - 1"
    define k where "k = nat (bitlen m - 1)"
    from False pos have y1: "1 < y" by (simp add: y_def field_simps)
    then have m: "0 < m" unfolding m_def by linarith
    from m have b1: "1 \<le> bitlen m" by (auto simp: bitlen_alt_def)
    then have k: "bitlen m - 1 = int k" "nat (bitlen m) = Suc k" "bitlen m = int (Suc k)"
      by (simp_all add: k_def)
    note bb = bitlen_bounds [OF m]
    have i1: "(2::int) ^ k \<le> m" using bb unfolding k_def by simp
    have i2: "m < 2 ^ Suc k" using bb unfolding k(2) by simp
    have lo: "(2::real) ^ k \<le> of_int m" by (rule pow2_le_of_int [OF i1])
    have hi: "of_int m + 1 \<le> (2::real) ^ Suc k" by (rule of_int_less_pow2 [OF i2])
    have e: "binade x = - int (Suc k)"
      using False k(3) by (simp add: binade_def a_def y_def m_def)
    have cl: "of_int m < y" "y \<le> of_int m + 1" unfolding m_def by linarith+
    from lo cl have ylo: "2 ^ k < y" by linarith
    from hi cl have yhi: "y \<le> 2 ^ Suc k" by linarith
    have ay: "a = 1 / y" using pos by (simp add: y_def)
    from y1 have ypos: "0 < y" by simp
    have l: "1 / 2 ^ Suc k \<le> a"
      unfolding ay using yhi ypos by (simp add: field_simps)
    have u: "a < 1 / 2 ^ k"
      unfolding ay using ylo ypos by (simp add: field_simps)
    have p1: "(2::real) powi (- int (Suc k)) = 1 / 2 ^ Suc k"
      by (simp only: power_int_minus_divide power_int_of_nat)
    have p2: "(2::real) powi (- int (Suc k) + 1) = 1 / 2 ^ k"
    proof -
      have "- int (Suc k) + 1 = - int k" by simp
      then show ?thesis by (simp only: power_int_minus_divide power_int_of_nat)
    qed
    from l u show ?thesis unfolding e p1 p2 by simp
  qed
  then show "2 powi binade x \<le> \<bar>x\<bar>" and "\<bar>x\<bar> < 2 powi (binade x + 1)"
    by (simp_all add: a_def)
qed

lemma binade_unique:
  assumes "2 powi e \<le> \<bar>x\<bar>" and "\<bar>x\<bar> < 2 powi (e + 1)"
  shows "binade x = e"
proof -
  have "(0::real) < 2 powi e" by simp
  with assms(1) have "0 < \<bar>x\<bar>" by linarith
  then have nz: "x \<noteq> 0" by simp
  note b = binade_bounds [OF nz]
  have 1: "e < binade x + 1"
  proof (rule ccontr)
    assume "\<not> e < binade x + 1"
    then have "binade x + 1 \<le> e" by simp
    then have "(2::real) powi (binade x + 1) \<le> 2 powi e" by (rule power_int_increasing) simp
    with assms(1) b(2) show False by linarith
  qed
  have 2: "binade x < e + 1"
  proof (rule ccontr)
    assume "\<not> binade x < e + 1"
    then have "e + 1 \<le> binade x" by simp
    then have "(2::real) powi (e + 1) \<le> 2 powi binade x" by (rule power_int_increasing) simp
    with assms(2) b(1) show False by linarith
  qed
  from 1 2 show ?thesis by simp
qed


lemma to_multiple_ge': "0 < u \<Longrightarrow> c = of_int k * u \<Longrightarrow> c \<le> x \<Longrightarrow> c \<le> to_multiple u x"
  using to_multiple_ge [of u k x] by simp

lemma to_multiple_le': "0 < u \<Longrightarrow> c = of_int k * u \<Longrightarrow> x \<le> c \<Longrightarrow> to_multiple u x \<le> c"
  using to_multiple_le [of u x k] by simp

lemma binade_mono:
  assumes "x \<noteq> 0" and "\<bar>x\<bar> \<le> \<bar>y\<bar>"
  shows "binade x \<le> binade y"
proof (rule ccontr)
  assume "\<not> binade x \<le> binade y"
  then have "binade y + 1 \<le> binade x" by simp
  then have "(2::real) powi (binade y + 1) \<le> 2 powi binade x"
    by (rule power_int_increasing) simp
  moreover from assms have "y \<noteq> 0" by auto
  ultimately show False
    using binade_bounds(1) [OF assms(1)] binade_bounds(2) [of y] assms(2) by linarith
qed

lemma exponent_mono: "x \<noteq> 0 \<Longrightarrow> \<bar>x\<bar> \<le> \<bar>y\<bar> \<Longrightarrow> exponent x \<le> exponent y"
  using binade_mono [of x y] by (simp add: exponent_def)

lemma exponent_upper: "x \<noteq> 0 \<Longrightarrow> \<bar>x\<bar> < 2 powi (exponent x + 1)"
proof -
  assume "x \<noteq> 0"
  note b = binade_bounds(2) [OF this]
  have "binade x + 1 \<le> exponent x + 1" by (simp add: exponent_def)
  then have "(2::real) powi (binade x + 1) \<le> 2 powi (exponent x + 1)"
    by (rule power_int_increasing) simp
  with b show ?thesis by linarith
qed

lemma exponent_lower: "x \<noteq> 0 \<Longrightarrow> - 1022 < exponent x \<Longrightarrow> 2 powi exponent x \<le> \<bar>x\<bar>"
proof -
  assume "x \<noteq> 0" and "- 1022 < exponent x"
  then have "exponent x = binade x" by (simp add: exponent_def max_def split: if_splits)
  with binade_bounds(1) [OF \<open>x \<noteq> 0\<close>] show ?thesis by simp
qed

lemma exponent_ge: "- 1022 \<le> exponent x"
  by (simp add: exponent_def)

lemma ulp_pos: "0 < ulp x"
  by (simp add: ulp_def)

lemma pow_ulp:
  "2 powi exponent x = of_int (2 ^ 52) * ulp x"
  "2 powi (exponent x + 1) = of_int (2 ^ 53) * ulp x"
  "- (2 powi exponent x) = of_int (- (2 ^ 52)) * ulp x"
  "- (2 powi (exponent x + 1)) = of_int (- (2 ^ 53)) * ulp x"
proof -
  have "(2::real) powi (52 + (exponent x - 52)) = 2 powi 52 * 2 powi (exponent x - 52)"
    by (rule power_int_add) simp
  moreover have "52 + (exponent x - 52) = exponent x" by simp
  ultimately show 1: "2 powi exponent x = of_int (2 ^ 52) * ulp x" by (simp add: ulp_def)
  have "(2::real) powi (53 + (exponent x - 52)) = 2 powi 53 * 2 powi (exponent x - 52)"
    by (rule power_int_add) simp
  moreover have "53 + (exponent x - 52) = exponent x + 1" by simp
  ultimately show 2: "2 powi (exponent x + 1) = of_int (2 ^ 53) * ulp x" by (simp add: ulp_def)
  from 1 show "- (2 powi exponent x) = of_int (- (2 ^ 52)) * ulp x" by simp
  from 2 show "- (2 powi (exponent x + 1)) = of_int (- (2 ^ 53)) * ulp x" by simp
qed

lemma double_eq: "x \<noteq> 0 \<Longrightarrow> double x = to_multiple (ulp x) x"
  by (simp add: double_def)

lemma double_zero [simp]: "double 0 = 0"
  by (simp add: double_def)

lemma double_nonneg: "0 \<le> x \<Longrightarrow> 0 \<le> double x"
  using to_multiple_ge [of "ulp x" 0 x] by (cases "x = 0") (simp_all add: double_eq ulp_pos)

lemma double_nonpos: "x \<le> 0 \<Longrightarrow> double x \<le> 0"
  using to_multiple_le [of "ulp x" x 0] by (cases "x = 0") (simp_all add: double_eq ulp_pos)

lemma double_abs_le: "x \<noteq> 0 \<Longrightarrow> \<bar>double x\<bar> \<le> 2 powi (exponent x + 1)"
proof -
  assume nz: "x \<noteq> 0"
  from exponent_upper [OF nz] have 1: "x \<le> 2 powi (exponent x + 1)"
    and 2: "- (2 powi (exponent x + 1)) \<le> x" by linarith+
  from to_multiple_le' [OF ulp_pos pow_ulp(2) 1] to_multiple_ge' [OF ulp_pos pow_ulp(4) 2]
  show ?thesis unfolding double_eq [OF nz] by linarith
qed

lemma double_ge_pow: "0 < x \<Longrightarrow> - 1022 < exponent x \<Longrightarrow> 2 powi exponent x \<le> double x"
proof -
  assume "0 < x" and n: "- 1022 < exponent x"
  then have nz: "x \<noteq> 0" by simp
  from exponent_lower [OF nz n] \<open>0 < x\<close> have "2 powi exponent x \<le> x" by linarith
  from to_multiple_ge' [OF ulp_pos pow_ulp(1) this] show ?thesis unfolding double_eq [OF nz] .
qed

lemma double_le_neg_pow: "x < 0 \<Longrightarrow> - 1022 < exponent x \<Longrightarrow> double x \<le> - (2 powi exponent x)"
proof -
  assume "x < 0" and n: "- 1022 < exponent x"
  then have nz: "x \<noteq> 0" by simp
  from exponent_lower [OF nz n] \<open>x < 0\<close> have "x \<le> - (2 powi exponent x)" by linarith
  from to_multiple_le' [OF ulp_pos pow_ulp(3) this] show ?thesis unfolding double_eq [OF nz] .
qed

lemma double_mono:
  assumes "x \<le> y" shows "double x \<le> double y"
proof -
  consider "x \<le> 0" "0 \<le> y" | "0 < x" | "y < 0" using assms by linarith
  then show ?thesis
  proof cases
    case 1
    with double_nonpos [of x] double_nonneg [of y] show ?thesis by linarith
  next
    case 2
    with assms have y: "0 < y" and nz: "x \<noteq> 0" "y \<noteq> 0" by simp_all
    from 2 y assms have le: "exponent x \<le> exponent y" by (intro exponent_mono) simp_all
    show ?thesis
    proof (cases "exponent x = exponent y")
      case True
      then have "ulp x = ulp y" by (simp add: ulp_def)
      with to_multiple_mono [OF ulp_pos assms, of x] show ?thesis by (simp add: double_eq nz)
    next
      case False
      with le have lt: "exponent x + 1 \<le> exponent y" by simp
      with exponent_ge [of x] have n: "- 1022 < exponent y" by linarith
      have "double x \<le> 2 powi (exponent x + 1)" using double_abs_le [OF nz(1)] by linarith
      also have "\<dots> \<le> 2 powi exponent y" using lt by (rule power_int_increasing) simp
      also have "\<dots> \<le> double y" by (rule double_ge_pow [OF y n])
      finally show ?thesis .
    qed
  next
    case 3
    with assms have x: "x < 0" and nz: "x \<noteq> 0" "y \<noteq> 0" by simp_all
    from 3 x assms have le: "exponent y \<le> exponent x" by (intro exponent_mono) simp_all
    show ?thesis
    proof (cases "exponent x = exponent y")
      case True
      then have "ulp x = ulp y" by (simp add: ulp_def)
      with to_multiple_mono [OF ulp_pos assms, of x] show ?thesis by (simp add: double_eq nz)
    next
      case False
      with le have lt: "exponent y + 1 \<le> exponent x" by simp
      with exponent_ge [of y] have n: "- 1022 < exponent x" by linarith
      have "double x \<le> - (2 powi exponent x)" by (rule double_le_neg_pow [OF x n])
      also have "\<dots> \<le> - (2 powi (exponent y + 1))"
        using power_int_increasing [OF lt, of "2::real"] by simp
      also have "\<dots> \<le> double y" using double_abs_le [OF nz(2)] by linarith
      finally show ?thesis .
    qed
  qed
qed

lemma double_eval:
  assumes "2 powi e \<le> \<bar>x\<bar>" and "\<bar>x\<bar> < 2 powi (e + 1)" and "- 1022 \<le> e"
  shows "double x = of_int (round_half_even (x / 2 powi (e - 52))) * 2 powi (e - 52)"
proof -
  have "(0::real) < 2 powi e" by simp
  with assms(1) have "0 < \<bar>x\<bar>" by linarith
  then have nz: "x \<noteq> 0" by simp
  from binade_unique [OF assms(1,2)] assms(3) have "exponent x = e" by (simp add: exponent_def)
  then show ?thesis by (simp add: double_def ulp_def nz to_multiple_def)
qed

lemma double_of_int:
  assumes "\<bar>k\<bar> \<le> 2 ^ 53" shows "double (of_int k) = of_int k"
proof (cases "k = 0")
  case True
  then show ?thesis by simp
next
  case False
  define x :: real where "x = of_int k"
  from False have nz: "x \<noteq> 0" and one: "1 \<le> \<bar>x\<bar>" by (simp_all add: x_def)
  have b0: "0 \<le> binade x"
  proof (rule ccontr)
    assume "\<not> 0 \<le> binade x"
    then have "binade x + 1 \<le> 0" by simp
    then have "(2::real) powi (binade x + 1) \<le> 2 powi 0" by (rule power_int_increasing) simp
    with binade_bounds(2) [OF nz] one show False by simp
  qed
  then have e: "exponent x = binade x" by (simp add: exponent_def)
  have up: "\<bar>x\<bar> \<le> 2 ^ 53"
  proof -
    from assms have "(of_int \<bar>k\<bar> :: real) \<le> of_int (2 ^ 53)" by (simp only: of_int_le_iff)
    then show ?thesis by (simp add: x_def)
  qed
  have e53: "exponent x \<le> 53"
  proof (rule ccontr)
    assume "\<not> exponent x \<le> 53"
    then have "54 \<le> exponent x" by simp
    then have "(2::real) powi 54 \<le> 2 powi exponent x" by (rule power_int_increasing) simp
    with binade_bounds(1) [OF nz] e up show False by simp
  qed
  have "\<exists>K. x = of_int K * ulp x"
  proof (cases "exponent x \<le> 52")
    case True
    define j where "j = nat (52 - exponent x)"
    have "ulp x * 2 powi (52 - exponent x) = 2 powi (exponent x - 52 + (52 - exponent x))"
      unfolding ulp_def by (rule power_int_add [symmetric]) simp
    also have "\<dots> = 1" by simp
    finally have inv: "ulp x * 2 powi (52 - exponent x) = 1" .
    have "(2::real) powi (52 - exponent x) = 2 ^ j"
      using True by (simp add: j_def power_int_def)
    with inv have "ulp x * 2 ^ j = 1" by simp
    then have "x = x * 2 ^ j * ulp x" by (simp add: mult.assoc mult.commute)
    also have "x * 2 ^ j = of_int (k * 2 ^ j)" by (simp add: x_def)
    finally show ?thesis by blast
  next
    case False
    with e53 have e: "exponent x = 53" by simp
    with exponent_lower [OF nz] have "2 ^ 53 \<le> \<bar>x\<bar>" by simp
    with up have ax: "\<bar>x\<bar> = 2 ^ 53" by simp
    have u: "ulp x = 2" by (simp add: ulp_def e)
    from ax have "x = 2 ^ 53 \<or> x = - (2 ^ 53)" by (simp add: abs_if split: if_splits)
    then have "x = of_int (2 ^ 52) * 2 \<or> x = of_int (- (2 ^ 52)) * 2" by simp
    then show ?thesis unfolding u by blast
  qed
  then obtain K where K: "x = of_int K * ulp x" ..
  have "double x = to_multiple (ulp x) x" by (rule double_eq [OF nz])
  also have "\<dots> = to_multiple (ulp x) (of_int K * ulp x)" using K by simp
  also have "\<dots> = of_int K * ulp x" using ulp_pos [of x] by (intro to_multiple_exact) simp
  also have "\<dots> = x" using K by simp
  finally show ?thesis by (simp add: x_def)
qed

text \<open>Integers up to \<open>2 ^ 53\<close> are doubles.\<close>

lemma double_numeral:
  "(numeral n :: int) \<le> 9007199254740992 \<Longrightarrow> double (numeral n) = numeral n"
  using double_of_int [of "numeral n"] by simp

lemma double_one: "double 1 = 1"
  using double_of_int [of 1] by simp

lemma double_integer:
  assumes "of_int \<lfloor>x\<rfloor> = x" and "\<bar>x\<bar> \<le> 2 ^ 53"
  shows "double x = x"
proof -
  define k where "k = \<lfloor>x\<rfloor>"
  have x: "x = of_int k" unfolding k_def by (rule assms(1) [symmetric])
  have "\<bar>of_int k :: real\<bar> \<le> of_int (2 ^ 53)" using assms(2) x by simp
  then have "\<bar>k\<bar> \<le> 2 ^ 53" by (simp only: of_int_abs [symmetric] of_int_le_iff)
  from double_of_int [OF this] show ?thesis by (simp add: x)
qed

lemma integer_add:
  assumes "of_int \<lfloor>x\<rfloor> = x" and "of_int \<lfloor>y\<rfloor> = y"
  shows "of_int \<lfloor>x + y\<rfloor> = x + y" and "of_int \<lfloor>x - y\<rfloor> = x - y"
proof -
  have "x + y = of_int (\<lfloor>x\<rfloor> + \<lfloor>y\<rfloor>)" "x - y = of_int (\<lfloor>x\<rfloor> - \<lfloor>y\<rfloor>)"
    unfolding of_int_add of_int_diff assms by (rule refl)+
  then show "of_int \<lfloor>x + y\<rfloor> = x + y" and "of_int \<lfloor>x - y\<rfloor> = x - y"
    by (metis floor_of_int)+
qed

text \<open>Two sums above \<open>2 ^ 53\<close>, where the doubles are the even integers.\<close>

lemma double_9007199254741991: "double 9007199254741991 = 9007199254741992"
  by (subst double_eval [where e = 53]) (simp_all add: round_half_even_def)

lemma double_9007199254741990: "double 9007199254741990 = 9007199254741990"
  by (subst double_eval [where e = 53]) (simp_all add: round_half_even_def)

text \<open>The literal \<open>0.01\<close>, and its product with 1000.\<close>

lemma double_hundredth: "double (1 / 100) = 5764607523034235 / 2 ^ 59"
  by (subst double_eval [where e = "- 7"]) (simp_all add: round_half_even_def)

lemma double_hundredth_1000: "double (double (1 / 100) * 1000) = 10"
  unfolding double_hundredth
  by (subst double_eval [where e = 3]) (simp_all add: round_half_even_def)

lemma double_hundredth_nonneg: "0 \<le> double (1 / 100)"
  by (rule double_nonneg) simp

subsection \<open>The expiration of a new lock\<close>

text \<open>A second at the default drift factor, from the time 1000.\<close>

lemma times64_hundredth_1000: "times64 (double (1 / 100)) 1000 = 10"
  unfolding times64_def by (rule double_hundredth_1000)

lemma drift_hundredth_1000: "drift (double (1 / 100)) 1000 = 12"
  by (simp add: drift_def times64_hundredth_1000 plus64_def double_numeral)

lemma expires_1000_1000_12: "expires 1000 1000 12 = 1988"
  by (simp add: expires_def plus64_def minus64_def double_numeral)

lemma no_overflow_hundredth_1000: "no_overflow 1000 1000 (double (1 / 100))"
  by (simp add: no_overflow_def finite64_def times64_hundredth_1000 drift_hundredth_1000
      expires_1000_1000_12 plus64_def double_numeral)

text \<open>
  The rounding of the product is seen in the drift: with the literal \<open>0.3\<close> and a duration of
  5 the product is rounded up to \<open>1.5\<close>, and the drift is 4, where \<open>round (3 / 10 * 5) + 2\<close>
  is 3.
\<close>

lemma double_three_tenths: "double (3 / 10) = 5404319552844595 / 2 ^ 54"
  by (subst double_eval [where e = "- 2"]) (simp_all add: round_half_even_def)

lemma drift_three_tenths: "drift (double (3 / 10)) 5 = 4"
proof -
  have "double (5404319552844595 / 2 ^ 54 * 5) = 3 / 2"
    by (subst double_eval [where e = 0]) (simp_all add: round_half_even_def)
  then have p: "times64 (double (3 / 10)) 5 = 3 / 2"
    by (simp only: times64_def double_three_tenths)
  have "round (3 / 2 :: real) = 2" by (simp add: round_def)
  then show ?thesis unfolding drift_def p by (simp add: plus64_def double_numeral)
qed

lemma within_2_53:
  "\<bar>(1000 :: real) + 1000\<bar> \<le> 2 ^ 53"
  "\<bar>of_int (round (double (double (1 / 100) * 1000))) + 2 :: real\<bar> \<le> 2 ^ 53"
  "\<bar>(1000 :: real) + 1000
     - (of_int (round (double (double (1 / 100) * 1000))) + 2)\<bar> \<le> 2 ^ 53"
  by (simp_all add: double_hundredth_1000)

lemma expires_drift:
  "expires t d (drift f d)
     = double (double (t + d) - double (of_int (round (double (f * d))) + 2))"
  by (simp add: expires_def drift_def plus64_def minus64_def times64_def)

lemma drift_at_least:
  assumes "0 \<le> f" and "0 \<le> d"
  shows "2 \<le> double (of_int (round (double (f * d))) + 2)"
proof -
  have "0 \<le> double (f * d)" using assms by (intro double_nonneg) simp
  then have "0 \<le> round (double (f * d))" by (simp add: round_def)
  then have "(2::real) \<le> of_int (round (double (f * d))) + 2" by simp
  from double_mono [OF this] show ?thesis by (simp add: double_numeral)
qed

lemma expires_le_double:
  assumes "0 \<le> f" and "0 \<le> d"
  shows "expires t d (drift f d) \<le> double (double (t + d) - 2)"
  unfolding expires_drift using drift_at_least [OF assms] by (intro double_mono) simp

lemma expires_le_exact:
  assumes "0 \<le> f" and "0 \<le> d" and "of_int \<lfloor>t\<rfloor> = t" and "of_int \<lfloor>d\<rfloor> = d"
    and "0 \<le> t" and "t + d \<le> 2 ^ 53"
  shows "expires t d (drift f d) \<le> t + d - 2"
proof -
  have two: "of_int \<lfloor>2 :: real\<rfloor> = (2 :: real)" by simp
  note i = integer_add(1) [OF assms(3,4)]
  have "double (t + d) = t + d"
    using assms(2,5,6) by (intro double_integer i) simp
  moreover have "double (t + d - 2) = t + d - 2"
    using assms(2,5,6) by (intro double_integer integer_add(2) [OF i two]) simp
  ultimately show ?thesis using expires_le_double [OF assms(1,2), of t] by simp
qed

lemma expires_exact:
  assumes "of_int \<lfloor>t\<rfloor> = t" and "of_int \<lfloor>d\<rfloor> = d" and "\<bar>t + d\<bar> \<le> 2 ^ 53"
    and "\<bar>of_int (round (double (f * d))) + 2 :: real\<bar> \<le> 2 ^ 53"
    and "\<bar>t + d - (of_int (round (double (f * d))) + 2)\<bar> \<le> 2 ^ 53"
  shows "expires t d (drift f d) = t + d - (of_int (round (double (f * d))) + 2)"
proof -
  let ?D = "of_int (round (double (f * d))) + 2 :: real"
  note i = integer_add(1) [OF assms(1,2)]
  have j: "of_int \<lfloor>?D\<rfloor> = ?D"
    by (metis floor_of_int of_int_add of_int_numeral)
  have "double (t + d) = t + d" using assms(3) by (intro double_integer i)
  moreover have "double ?D = ?D" using assms(4) by (intro double_integer j)
  moreover have "double (t + d - ?D) = t + d - ?D"
    using assms(5) by (intro double_integer integer_add(2) [OF i j])
  ultimately show ?thesis by (simp add: expires_drift)
qed


lemmas attempt_defs = attemptOperation_def collect_def initial_state_def stats_handle_def
  onResultResolve_def tally_def resolve_def attemptOperationOnClient_def Set_add_def

lemmas execute_defs = execute_def merge_def maxAttempts_def below_def delay_def pick_def
  noSettings_def retries_def

lemmas input_defs = rl1_def lock1_def world1_def env_reply_def defaultSettings_def

subsection \<open>The tally of one attempt\<close>

lemma map_fst_Map_set:
  "map fst (Map_set m k v) = (if k \<in> fst ` set m then map fst m else map fst m @ [k])"
  by (induction m k v rule: Map_set.induct) auto

lemma length_Map_set:
  "length (Map_set m k v) = (if k \<in> fst ` set m then length m else Suc (length m))"
  using arg_cong [OF map_fst_Map_set [of m k v], of length] by (simp split: if_splits)

lemma keys_Map_set: "fst ` set (Map_set m k v) = insert k (fst ` set m)"
  using arg_cong [OF map_fst_Map_set [of m k v], of set] by (auto split: if_splits)

lemma onResultResolve_sizes:
  "membershipSize (stats (onResultResolve st r)) = membershipSize (stats st)"
  "quorumSize (stats (onResultResolve st r)) = quorumSize (stats st)"
  by (auto simp: onResultResolve_def tally_def Let_def split: ClientExecutionResult.splits)

lemma attemptOperationOnClient_client:
  "attemptOperationOnClient c scr keys args r = Fulfilled res \<Longrightarrow>
     (\<exists>n. res = VoteFor c n) \<or> (\<exists>e. res = VoteAgainst c e)"
  by (auto simp: attemptOperationOnClient_def split: reply.splits if_splits)

lemma tally_ok_step:
  assumes ok: "tally_ok cl pending (stats st)" and c: "c \<in> set pending"
    and res: "(\<exists>n. res = VoteFor c n) \<or> (\<exists>e. res = VoteAgainst c e)"
  shows "tally_ok cl (removeAll c pending) (stats (onResultResolve st res))"
proof -
  let ?s = "stats st"
  from ok have d: "distinct (votesFor ?s)" "distinct (map fst (votesAgainst ?s))"
    and dj: "set (votesFor ?s) \<inter> fst ` set (votesAgainst ?s) = {}"
    and pj: "(set (votesFor ?s) \<union> fst ` set (votesAgainst ?s)) \<inter> set pending = {}"
    and sub: "set (votesFor ?s) \<union> fst ` set (votesAgainst ?s) \<union> set pending \<subseteq> set cl"
    by (simp_all add: tally_ok_def voters_def)
  from pj c have cf: "c \<notin> set (votesFor ?s)" and ca: "c \<notin> fst ` set (votesAgainst ?s)"
    by blast+
  from sub c have ccl: "c \<in> set cl" by blast
  from res show ?thesis
  proof
    assume "\<exists>n. res = VoteFor c n"
    then obtain n where r: "res = VoteFor c n" ..
    have s': "stats (onResultResolve st res) = ?s\<lparr>votesFor := votesFor ?s @ [c]\<rparr>"
      using cf by (simp add: r onResultResolve_def tally_def Let_def Set_add_def)
    show ?thesis
      unfolding s' tally_ok_def voters_def
      using d dj pj sub cf ca ccl by (simp, blast)
  next
    assume "\<exists>e. res = VoteAgainst c e"
    then obtain e where r: "res = VoteAgainst c e" ..
    have s': "stats (onResultResolve st res)
        = ?s\<lparr>votesAgainst := Map_set (votesAgainst ?s) c e\<rparr>"
      by (simp add: r onResultResolve_def tally_def Let_def)
    show ?thesis
      unfolding s' tally_ok_def voters_def
      using d dj pj sub cf ca ccl by (simp add: map_fst_Map_set keys_Map_set, blast)
  qed
qed

lemma tally_ok_skip:
  "tally_ok cl pending s \<Longrightarrow> tally_ok cl (removeAll c pending) s"
  by (auto simp: tally_ok_def)

lemma settle_invariant:
  "tally_ok cl pending (stats st) \<Longrightarrow>
     \<exists>pending'. tally_ok cl pending' (stats (settle scr keys args pending es st))"
proof (induction es arbitrary: pending st)
  case Nil
  then show ?case by auto
next
  case (Cons a es)
  obtain c r where a: "a = (c, r)" by (cases a)
  show ?case
  proof (cases "c \<in> set pending")
    case False
    with Cons a show ?thesis by simp
  next
    case True
    show ?thesis
    proof (cases "attemptOperationOnClient c scr keys args r")
      case (Fulfilled res)
      from tally_ok_step [OF Cons.prems True attemptOperationOnClient_client [OF Fulfilled]]
      have "tally_ok cl (removeAll c pending) (stats (onResultResolve st res))" .
      from Cons.IH [OF this] a True Fulfilled show ?thesis by simp
    next
      case (Rejected e)
      from Cons.IH [OF tally_ok_skip [OF Cons.prems, of c]] a True Rejected
      show ?thesis by simp
    next
      case Pending
      from Cons.IH [OF tally_ok_skip [OF Cons.prems, of c]] a True Pending
      show ?thesis by simp
    qed
  qed
qed

lemma settle_sizes:
  "membershipSize (stats (settle scr keys args pending es st)) = membershipSize (stats st)
 \<and> quorumSize (stats (settle scr keys args pending es st)) = quorumSize (stats st)"
  by (induction scr keys args pending es st rule: settle.induct)
     (auto simp: onResultResolve_sizes split: promise.splits)

lemma tally_ok_bound:
  assumes "tally_ok cl pending s"
  shows "length (votesFor s) + length (votesAgainst s) \<le> length cl"
proof -
  from assms have d: "distinct (votesFor s)" "distinct (map fst (votesAgainst s))"
    and dj: "set (votesFor s) \<inter> fst ` set (votesAgainst s) = {}"
    and sub: "voters s \<subseteq> set cl"
    by (auto simp: tally_ok_def)
  have "length (votesFor s) = card (set (votesFor s))" using d(1) by (simp add: distinct_card)
  moreover have "length (votesAgainst s) = card (fst ` set (votesAgainst s))"
    using distinct_card [OF d(2)] by simp
  moreover have "card (set (votesFor s)) + card (fst ` set (votesAgainst s)) = card (voters s)"
    unfolding voters_def using dj by (simp add: card_Un_disjoint)
  moreover have "card (voters s) \<le> card (set cl)" using sub by (simp add: card_mono)
  moreover have "card (set cl) \<le> length cl" by (rule card_length)
  ultimately show ?thesis by linarith
qed

lemma collect_tally:
  "\<exists>pending. tally_ok (clients rl) pending (stats (collect rl scr keys args e))"
  unfolding collect_def
  by (rule settle_invariant) (simp add: tally_ok_def voters_def initial_state_def)

lemma collect_sizes:
  "membershipSize (stats (collect rl scr keys args e)) = length (clients rl)"
  "quorumSize (stats (collect rl scr keys args e)) = length (clients rl) div 2 + 1"
  by (simp_all add: collect_def settle_sizes initial_state_def)


lemma against_only_step:
  assumes inv: "against_only pending st" and c: "c \<in> set pending"
  shows "against_only (removeAll c pending) (onResultResolve st (VoteAgainst c e))"
proof -
  let ?s = "stats st"
  let ?va = "votesAgainst ?s"
  from inv have vf: "votesFor ?s = []"
    and pj: "fst ` set ?va \<inter> set pending = {}"
    and sum: "length ?va + card (set pending) = membershipSize ?s"
    and q: "0 < quorumSize ?s" "quorumSize ?s \<le> membershipSize ?s"
    and res: "resolution st = (if quorumSize ?s \<le> length ?va then Some Against else None)"
    by (simp_all add: against_only_def)
  from pj c have ca: "c \<notin> fst ` set ?va" by blast
  have len: "length (Map_set ?va c e) = Suc (length ?va)" using ca by (simp add: length_Map_set)
  have card: "card (set (removeAll c pending)) = card (set pending) - 1"
    using c by simp
  have cpos: "0 < card (set pending)" using c by (auto simp: card_gt_0_iff)
  have st': "stats (onResultResolve st (VoteAgainst c e)) = ?s\<lparr>votesAgainst := Map_set ?va c e\<rparr>"
    by (simp add: onResultResolve_def tally_def Let_def)
  have r': "resolution (onResultResolve st (VoteAgainst c e))
      = (if quorumSize ?s \<le> Suc (length ?va) then Some Against else None)"
    using vf q res len by (auto simp: onResultResolve_def tally_def Let_def resolve_def)
  show ?thesis
    unfolding against_only_def st'
    using vf pj sum q r' len card cpos ca by (auto simp: keys_Map_set)
qed

lemma settle_all_against:
  assumes "against_only pending st"
    and "set pending \<subseteq> fst ` set es"
    and "\<And>c r. (c, r) \<in> set es \<Longrightarrow>
           \<exists>e. attemptOperationOnClient c scr keys args r = Fulfilled (VoteAgainst c e)"
  shows "resolution (settle scr keys args pending es st) = Some Against"
  using assms
proof (induction es arbitrary: pending st)
  case Nil
  then show ?case by (auto simp: against_only_def)
next
  case (Cons a es)
  obtain c r where a: "a = (c, r)" by (cases a)
  show ?case
  proof (cases "c \<in> set pending")
    case False
    have "resolution (settle scr keys args pending es st) = Some Against"
    proof (rule Cons.IH [OF Cons.prems(1)])
      show "set pending \<subseteq> fst ` set es" using Cons.prems(2) False a by auto
    next
      fix c' r' assume "(c', r') \<in> set es"
      then show "\<exists>e. attemptOperationOnClient c' scr keys args r' = Fulfilled (VoteAgainst c' e)"
        using Cons.prems(3) [of c' r'] by simp
    qed
    with False a show ?thesis by simp
  next
    case True
    from Cons.prems(3) [of c r] a obtain e where
      e: "attemptOperationOnClient c scr keys args r = Fulfilled (VoteAgainst c e)" by auto
    have "resolution (settle scr keys args (removeAll c pending) es
        (onResultResolve st (VoteAgainst c e))) = Some Against"
    proof (rule Cons.IH [OF against_only_step [OF Cons.prems(1) True]])
      show "set (removeAll c pending) \<subseteq> fst ` set es" using Cons.prems(2) a by auto
    next
      fix c' r' assume "(c', r') \<in> set es"
      then show "\<exists>e. attemptOperationOnClient c' scr keys args r' = Fulfilled (VoteAgainst c' e)"
        using Cons.prems(3) [of c' r'] by simp
    qed
    with True a e show ?thesis by simp
  qed
qed

text \<open>When every client answers and every answer is a vote against, the attempt is decided against.\<close>

lemma decision_all_against:
  assumes "distinct (clients rl)" and "clients rl \<noteq> []"
    and "set (clients rl) \<subseteq> fst ` set (settles e)"
    and "\<And>c r. (c, r) \<in> set (settles e) \<Longrightarrow>
           \<exists>err. attemptOperationOnClient c scr keys args r = Fulfilled (VoteAgainst c err)"
  shows "decision rl scr keys args e = Some Against"
  unfolding decision_def collect_def
proof (rule settle_all_against [OF _ assms(3) assms(4)])
  have "0 < length (clients rl)" using assms(2) by simp
  then have "length (clients rl) div 2 + 1 \<le> length (clients rl)" by linarith
  then show "against_only (clients rl) (initial_state rl)"
    using assms(1) by (simp add: against_only_def initial_state_def distinct_card)
qed

subsection \<open>What the retry loop leaves alone\<close>

lemma attemptOperation_frame:
  "attemptOperation rl command keys args env w = (w1, x) \<Longrightarrow>
     heap w1 = heap w \<and> next_ref w1 = next_ref w \<and> tick w1 = Suc (tick w) \<and>
     trace w1 = trace w @ map (\<lambda>c. Call c command keys args) (clients rl)"
  by (auto simp: attemptOperation_def Let_def)

lemma execute_loop_frame:
  assumes "execute_loop rl command keys args m rd rj env atts w = Some y"
  shows "heap (fst y) = heap w \<and> next_ref (fst y) = next_ref w \<and> tick w \<le> tick (fst y) \<and>
     (\<exists>evs. trace (fst y) = trace w @ evs \<and> (\<forall>e\<in>set evs. own_event rl command keys args e))"
  using assms
proof (induct rule: execute_loop.raw_induct [rotated 1, consumes 1])
  case (1 loop rl command keys args m rd rj env atts w y)
  show ?case
  proof (cases "below (length atts) m")
    case False
    with 1(2) show ?thesis by auto
  next
    case True
    obtain w1 x where att: "attemptOperation rl command keys args env w = (w1, x)"
      by (cases "attemptOperation rl command keys args env w")
    note fr = attemptOperation_frame [OF att]
    have own: "\<forall>e\<in>set (map (\<lambda>c. Call c command keys args) (clients rl)).
                 own_event rl command keys args e"
      by (auto simp: own_event_def)
    show ?thesis
    proof (cases x)
      case None
      with 1(2) True att fr own show ?thesis by auto
    next
      case (Some t)
      obtain v st tm where t: "t = (v, st, tm)" by (cases t)
      show ?thesis
      proof (cases "v = For")
        case True
        with 1(2) \<open>below (length atts) m\<close> att fr own Some t show ?thesis by auto
      next
        case False
        define w2 where "w2 = (if below (length (atts @ [st])) m
                         then w1\<lparr>trace := trace w1 @ [Sleep (delay rd rj (random (env (tick w))))]\<rparr>
                         else w1)"
        from 1(2) \<open>below (length atts) m\<close> att Some t False
        have "loop rl command keys args m rd rj env (atts @ [st]) w2 = Some y"
          by (simp add: w2_def)
        from 1(1) [OF this] obtain evs where
          ih: "heap (fst y) = heap w2" "next_ref (fst y) = next_ref w2" "tick w2 \<le> tick (fst y)"
            "trace (fst y) = trace w2 @ evs" "\<forall>e\<in>set evs. own_event rl command keys args e"
          by blast
        have w2: "heap w2 = heap w" "next_ref w2 = next_ref w" "tick w2 = Suc (tick w)"
          "\<exists>evs'. trace w2 = trace w @ evs' \<and> (\<forall>e\<in>set evs'. own_event rl command keys args e)"
          using fr own by (auto simp: w2_def own_event_def)
        then obtain evs' where
          e': "trace w2 = trace w @ evs'" "\<forall>e\<in>set evs'. own_event rl command keys args e"
          by blast
        have "trace (fst y) = trace w @ (evs' @ evs)" using ih(4) e'(1) by simp
        moreover have "\<forall>e\<in>set (evs' @ evs). own_event rl command keys args e"
          using ih(5) e'(2) by auto
        ultimately show ?thesis using ih(1-3) w2(1-3) by (metis le_SucI Suc_leD)
      qed
    qed
  qed
qed

lemma execute_frame:
  assumes "execute rl command keys args given env w = Some (w', out)"
  shows "heap w' = heap w" and "next_ref w' = next_ref w" and "tick w \<le> tick w'"
    and "\<exists>evs. trace w' = trace w @ evs \<and> (\<forall>e\<in>set evs. own_event rl command keys args e)"
  using execute_loop_frame [of rl command keys args _ _ _ env "[]" w "(w', out)"] assms
  by (simp_all add: execute_def Let_def)

subsection \<open>The retry loop watched for a bounded number of turns\<close>

text \<open>Whether it has returned or not, the loop has written nothing to the heap.\<close>

lemma execute_loop_upto_frame:
  "heap (fst (execute_loop_upto n rl command keys args m rd rj env atts w)) = heap w
   \<and> (\<exists>evs. trace (fst (execute_loop_upto n rl command keys args m rd rj env atts w))
               = trace w @ evs
            \<and> (\<forall>e\<in>set evs. own_event rl command keys args e))"
proof (induction n arbitrary: atts w)
  case 0
  show ?case by simp
next
  case (Suc n)
  show ?case
  proof (cases "below (length atts) m")
    case False
    then show ?thesis by simp
  next
    case True
    obtain w1 x where att: "attemptOperation rl command keys args env w = (w1, x)"
      by (cases "attemptOperation rl command keys args env w")
    note fr = attemptOperation_frame [OF att]
    have own: "\<forall>e\<in>set (map (\<lambda>c. Call c command keys args) (clients rl)).
                 own_event rl command keys args e"
      by (auto simp: own_event_def)
    show ?thesis
    proof (cases x)
      case None
      with True att fr own show ?thesis by auto
    next
      case (Some t)
      obtain v st tm where t: "t = (v, st, tm)" by (cases t)
      show ?thesis
      proof (cases "v = For")
        case True
        with \<open>below (length atts) m\<close> att fr own Some t show ?thesis by auto
      next
        case False
        define w2 where "w2 = (if below (length (atts @ [st])) m
                         then w1\<lparr>trace := trace w1 @ [Sleep (delay rd rj (random (env (tick w))))]\<rparr>
                         else w1)"
        let ?r = "execute_loop_upto n rl command keys args m rd rj env (atts @ [st]) w2"
        from \<open>below (length atts) m\<close> att Some t False
        have eq: "execute_loop_upto (Suc n) rl command keys args m rd rj env atts w = ?r"
          by (simp add: w2_def)
        from Suc.IH [of "atts @ [st]" w2] obtain evs where
          ih: "heap (fst ?r) = heap w2" "trace (fst ?r) = trace w2 @ evs"
            "\<forall>e\<in>set evs. own_event rl command keys args e"
          by blast
        have w2: "heap w2 = heap w"
          "\<exists>evs'. trace w2 = trace w @ evs' \<and> (\<forall>e\<in>set evs'. own_event rl command keys args e)"
          using fr own by (auto simp: w2_def own_event_def)
        then obtain evs' where
          e': "trace w2 = trace w @ evs'" "\<forall>e\<in>set evs'. own_event rl command keys args e"
          by blast
        have "trace (fst ?r) = trace w @ (evs' @ evs)" using ih(2) e'(1) by simp
        moreover have "\<forall>e\<in>set (evs' @ evs). own_event rl command keys args e"
          using ih(3) e'(2) by auto
        ultimately show ?thesis unfolding eq using ih(1) w2(1) by metis
      qed
    qed
  qed
qed

text \<open>What has been seen to return is what the loop returns.\<close>

lemma execute_loop_upto_returned:
  "execute_loop_upto n rl command keys args m rd rj env atts w = (w', Some out) \<Longrightarrow>
     execute_loop rl command keys args m rd rj env atts w = Some (w', out)"
proof (induction n arbitrary: atts w)
  case 0
  then show ?case by simp
next
  case (Suc n)
  show ?case
    using Suc.prems Suc.IH
    by (subst execute_loop.simps) (auto split: if_splits prod.splits option.splits)
qed

text \<open>What the loop returns is seen after enough turns.\<close>

lemma execute_loop_returns_upto:
  assumes "execute_loop rl command keys args m rd rj env atts w = Some y"
  shows "\<exists>n. execute_loop_upto n rl command keys args m rd rj env atts w = (fst y, Some (snd y))"
  using assms
proof (induct rule: execute_loop.raw_induct [rotated 1, consumes 1])
  case (1 loop rl command keys args m rd rj env atts w y)
  show ?case
  proof (cases "below (length atts) m")
    case False
    with 1(2) have "execute_loop_upto (Suc 0) rl command keys args m rd rj env atts w
        = (fst y, Some (snd y))" by auto
    then show ?thesis ..
  next
    case True
    obtain w1 x where att: "attemptOperation rl command keys args env w = (w1, x)"
      by (cases "attemptOperation rl command keys args env w")
    show ?thesis
    proof (cases x)
      case None
      with 1(2) True att
      have "execute_loop_upto (Suc 0) rl command keys args m rd rj env atts w
        = (fst y, Some (snd y))" by auto
      then show ?thesis ..
    next
      case (Some t)
      obtain v st tm where t: "t = (v, st, tm)" by (cases t)
      show ?thesis
      proof (cases "v = For")
        case True
        with 1(2) \<open>below (length atts) m\<close> att Some t
        have "execute_loop_upto (Suc 0) rl command keys args m rd rj env atts w
          = (fst y, Some (snd y))" by auto
        then show ?thesis ..
      next
        case False
        define w2 where "w2 = (if below (length (atts @ [st])) m
                         then w1\<lparr>trace := trace w1 @ [Sleep (delay rd rj (random (env (tick w))))]\<rparr>
                         else w1)"
        from 1(2) \<open>below (length atts) m\<close> att Some t False
        have "loop rl command keys args m rd rj env (atts @ [st]) w2 = Some y"
          by (simp add: w2_def)
        from 1(1) [OF this] obtain n where
          "execute_loop_upto n rl command keys args m rd rj env (atts @ [st]) w2
             = (fst y, Some (snd y))" by blast
        with \<open>below (length atts) m\<close> att Some t False
        have "execute_loop_upto (Suc n) rl command keys args m rd rj env atts w
          = (fst y, Some (snd y))" by (simp add: w2_def)
        then show ?thesis ..
      qed
    qed
  qed
qed



lemma execute_upto_frame:
  "heap (fst (execute_upto n rl command keys args given env w)) = heap w
   \<and> (\<exists>evs. trace (fst (execute_upto n rl command keys args given env w)) = trace w @ evs
            \<and> (\<forall>e\<in>set evs. own_event rl command keys args e))"
  using execute_loop_upto_frame by (simp add: execute_upto_def Let_def)

lemma execute_upto_returned:
  "execute_upto n rl command keys args given env w = (w', Some out) \<Longrightarrow>
     execute rl command keys args given env w = Some (w', out)"
  using execute_loop_upto_returned by (simp add: execute_upto_def execute_def Let_def)

lemma execute_returns_upto:
  "execute rl command keys args given env w = Some (w', out) \<Longrightarrow>
     \<exists>n. execute_upto n rl command keys args given env w = (w', Some out)"
  using execute_loop_returns_upto [of rl command keys args _ _ _ env "[]" w "(w', out)"]
  by (simp add: execute_upto_def execute_def Let_def)

subsection \<open>What the retry loop returns\<close>

lemma attemptOperation_decision:
  "attemptOperation rl command keys args env w = (w1, x) \<Longrightarrow>
     tick w1 = Suc (tick w) \<and>
     x = map_option (\<lambda>v. (v, stats_handle (collect rl command keys args (env (tick w))),
                         now (env (tick w))))
           (decision rl command keys args (env (tick w)))"
  by (auto simp: attemptOperation_def decision_def Let_def)

lemma execute_loop_result:
  assumes "execute_loop rl command keys args m rd rj env atts w = Some y"
  shows "tick w \<le> tick (fst y)
    \<and> (\<forall>n. tick (fst y) = Suc (tick w + n) \<longrightarrow> below (length atts + n) m)
    \<and> (\<forall>i. tick w \<le> i \<and> i + 1 < tick (fst y) \<longrightarrow>
           decision rl command keys args (env i) = Some Against)
    \<and> (case snd y of
         Fulfilled r \<Rightarrow>
           tick w < tick (fst y)
           \<and> length (attempts r) = length atts + (tick (fst y) - tick w)
           \<and> start r = now (env (tick (fst y) - 1))
           \<and> decision rl command keys args (env (tick (fst y) - 1)) = Some For
       | Rejected e \<Rightarrow>
           (\<exists>sts. e = ExecutionError quorum_failed sts
              \<and> length sts = length atts + (tick (fst y) - tick w)
              \<and> \<not> below (length sts) m)
           \<and> (tick w < tick (fst y) \<longrightarrow>
                decision rl command keys args (env (tick (fst y) - 1)) = Some Against)
       | Pending \<Rightarrow>
           tick w < tick (fst y)
           \<and> decision rl command keys args (env (tick (fst y) - 1)) = None)"
  using assms
proof (induct rule: execute_loop.raw_induct [rotated 1, consumes 1])
  case (1 loop rl command keys args m rd rj env atts w y)
  show ?case
  proof (cases "below (length atts) m")
    case False
    with 1(2) show ?thesis by auto
  next
    case True
    obtain w1 x where att: "attemptOperation rl command keys args env w = (w1, x)"
      by (cases "attemptOperation rl command keys args env w")
    note dc = attemptOperation_decision [OF att]
    show ?thesis
    proof (cases x)
      case None
      with 1(2) True att dc show ?thesis by auto
    next
      case (Some t)
      obtain v st tm where t: "t = (v, st, tm)" by (cases t)
      from Some t dc have dv: "decision rl command keys args (env (tick w)) = Some v"
        and tm: "tm = now (env (tick w))" by auto
      show ?thesis
      proof (cases "v = For")
        case True
        with 1(2) \<open>below (length atts) m\<close> att dc Some t dv tm show ?thesis by auto
      next
        case False
        then have va: "v = Against" by (cases v) auto
        define w2 where "w2 = (if below (length (atts @ [st])) m
                         then w1\<lparr>trace := trace w1 @ [Sleep (delay rd rj (random (env (tick w))))]\<rparr>
                         else w1)"
        have tw2: "tick w2 = Suc (tick w)" using dc by (simp add: w2_def)
        from 1(2) \<open>below (length atts) m\<close> att Some t False
        have "loop rl command keys args m rd rj env (atts @ [st]) w2 = Some y"
          by (simp add: w2_def)
        note ih = 1(1) [OF this, unfolded tw2]
        have le: "Suc (tick w) \<le> tick (fst y)"
          using ih by simp
        have all: "\<forall>i. tick w \<le> i \<and> i + 1 < tick (fst y) \<longrightarrow>
           decision rl command keys args (env i) = Some Against"
        proof (intro allI impI)
          fix i assume i: "tick w \<le> i \<and> i + 1 < tick (fst y)"
          show "decision rl command keys args (env i) = Some Against"
          proof (cases "i = tick w")
            case True with dv va show ?thesis by simp
          next
            case False
            with i have "Suc (tick w) \<le> i \<and> i + 1 < tick (fst y)" by auto
            with ih show ?thesis by blast
          qed
        qed
        have bl: "\<forall>n. tick (fst y) = Suc (tick w + n) \<longrightarrow> below (length atts + n) m"
        proof (intro allI impI)
          fix n assume n: "tick (fst y) = Suc (tick w + n)"
          show "below (length atts + n) m"
          proof (cases n)
            case 0
            with \<open>below (length atts) m\<close> show ?thesis by simp
          next
            case (Suc n')
            with n have "tick (fst y) = Suc (Suc (tick w) + n')" by simp
            with ih have "below (length (atts @ [st]) + n') m" by blast
            with Suc show ?thesis by simp
          qed
        qed
        have len: "length (atts @ [st]) + (tick (fst y) - Suc (tick w))
             = length atts + (tick (fst y) - tick w)" using le by simp
        have last: "Suc (tick w) < tick (fst y) \<or> tick (fst y) - 1 = tick w" using le by auto
        show ?thesis
        proof (cases "snd y")
          case (Fulfilled r)
          with ih all bl len le show ?thesis by auto
        next
          case (Rejected e)
          with ih all bl len le last dv va show ?thesis by auto
        next
          case Pending
          with ih all bl len le show ?thesis by auto
        qed
      qed
    qed
  qed
qed

lemma execute_loop_unroll:
  "(\<And>i. i < n \<Longrightarrow> decision rl command keys args (env (tick w + i)) = Some Against
        \<and> below (length atts + i) m) \<Longrightarrow>
   \<exists>sts w'. length sts = n \<and> tick w' = tick w + n
     \<and> execute_loop rl command keys args m rd rj env atts w
       = execute_loop rl command keys args m rd rj env (atts @ sts) w'"
proof (induction n arbitrary: atts w)
  case 0
  show ?case by (rule exI [of _ "[]"], rule exI [of _ w]) simp
next
  case (Suc n)
  from Suc.prems [of 0] have d0: "decision rl command keys args (env (tick w)) = Some Against"
    and b0: "below (length atts) m" by auto
  obtain w1 x where att: "attemptOperation rl command keys args env w = (w1, x)"
    by (cases "attemptOperation rl command keys args env w")
  note dc = attemptOperation_decision [OF att]
  define st where "st = stats_handle (collect rl command keys args (env (tick w)))"
  define w2 where "w2 = (if below (length (atts @ [st])) m
                   then w1\<lparr>trace := trace w1 @ [Sleep (delay rd rj (random (env (tick w))))]\<rparr>
                   else w1)"
  have tw2: "tick w2 = Suc (tick w)" using dc by (simp add: w2_def)
  have step: "execute_loop rl command keys args m rd rj env atts w
      = execute_loop rl command keys args m rd rj env (atts @ [st]) w2"
    using b0 att dc d0
    by (subst execute_loop.simps) (simp add: st_def w2_def)
  have "\<exists>sts w'. length sts = n \<and> tick w' = tick w2 + n
     \<and> execute_loop rl command keys args m rd rj env (atts @ [st]) w2
       = execute_loop rl command keys args m rd rj env ((atts @ [st]) @ sts) w'"
  proof (rule Suc.IH)
    fix i assume "i < n"
    with Suc.prems [of "Suc i"] tw2
    show "decision rl command keys args (env (tick w2 + i)) = Some Against
        \<and> below (length (atts @ [st]) + i) m" by simp
  qed
  then obtain sts w' where r: "length sts = n" "tick w' = tick w2 + n"
    "execute_loop rl command keys args m rd rj env (atts @ [st]) w2
       = execute_loop rl command keys args m rd rj env ((atts @ [st]) @ sts) w'" by blast
  show ?case
    by (rule exI [of _ "st # sts"], rule exI [of _ w']) (use r tw2 step in simp)
qed

text \<open>A bounded budget with every attempt decided against is used up.\<close>

lemma execute_loop_exhausted:
  assumes "\<And>i. i \<le> k \<Longrightarrow> decision rl command keys args (env (tick w + i)) = Some Against"
  shows "\<exists>w' sts. execute_loop rl command keys args (Some (real k + 1)) rd rj env [] w
      = Some (w', Rejected (ExecutionError quorum_failed sts))
    \<and> length sts = k + 1 \<and> tick w' = tick w + (k + 1)"
proof -
  have "\<exists>sts w'. length sts = Suc k \<and> tick w' = tick w + Suc k
     \<and> execute_loop rl command keys args (Some (real k + 1)) rd rj env [] w
       = execute_loop rl command keys args (Some (real k + 1)) rd rj env ([] @ sts) w'"
    by (rule execute_loop_unroll) (use assms in \<open>auto simp: below_def\<close>)
  then obtain sts w' where r: "length sts = Suc k" "tick w' = tick w + Suc k"
    "execute_loop rl command keys args (Some (real k + 1)) rd rj env [] w
       = execute_loop rl command keys args (Some (real k + 1)) rd rj env sts w'" by auto
  have "execute_loop rl command keys args (Some (real k + 1)) rd rj env sts w'
      = Some (w', Rejected (ExecutionError quorum_failed sts))"
    using r(1) by (subst execute_loop.simps) (simp add: below_def)
  with r show ?thesis by auto
qed

text \<open>Without a bound, the loop goes on until an attempt is decided for.\<close>

lemma execute_loop_unbounded_success:
  assumes "\<And>i. i < n \<Longrightarrow> decision rl command keys args (env (tick w + i)) = Some Against"
    and "decision rl command keys args (env (tick w + n)) = Some For"
  shows "\<exists>w' r. execute_loop rl command keys args None rd rj env [] w = Some (w', Fulfilled r)
    \<and> length (attempts r) = n + 1 \<and> tick w' = tick w + (n + 1)"
proof -
  have "\<exists>sts w'. length sts = n \<and> tick w' = tick w + n
     \<and> execute_loop rl command keys args None rd rj env [] w
       = execute_loop rl command keys args None rd rj env ([] @ sts) w'"
    by (rule execute_loop_unroll) (use assms in \<open>auto simp: below_def\<close>)
  then obtain sts w' where r: "length sts = n" "tick w' = tick w + n"
    "execute_loop rl command keys args None rd rj env [] w
       = execute_loop rl command keys args None rd rj env sts w'" by auto
  obtain w1 x where att: "attemptOperation rl command keys args env w' = (w1, x)"
    by (cases "attemptOperation rl command keys args env w'")
  note dc = attemptOperation_decision [OF att]
  have "\<exists>st t. execute_loop rl command keys args None rd rj env sts w'
      = Some (w1, Fulfilled \<lparr>attempts = sts @ [st], start = t\<rparr>)"
    using att dc assms(2) r(2) by (subst execute_loop.simps) (simp add: below_def)
  with r dc show ?thesis by auto
qed

text \<open>Without a bound and with every attempt decided against, the loop never returns.\<close>

lemma execute_loop_unbounded_diverges:
  assumes "\<And>i. decision rl command keys args (env (tick w + i)) = Some Against"
  shows "execute_loop rl command keys args None rd rj env [] w = None"
proof (cases "execute_loop rl command keys args None rd rj env [] w")
  case None
  then show ?thesis .
next
  case (Some y)
  note res = execute_loop_result [OF Some]
  have ag: "tick w < t \<Longrightarrow> decision rl command keys args (env (t - 1)) = Some Against" for t
    using assms [of "t - 1 - tick w"] by simp
  show ?thesis
  proof (cases "snd y")
    case (Fulfilled r)
    with res ag [of "tick (fst y)"] show ?thesis by simp
  next
    case (Rejected e)
    with res show ?thesis by (simp add: below_def)
  next
    case Pending
    with res ag [of "tick (fst y)"] show ?thesis by simp
  qed
qed

subsection \<open>Release\<close>

lemma release_upto_frame:
  "expiration (heap (fst (release_upto n rl l given env w)) l) = 0
   \<and> (\<exists>evs. trace (fst (release_upto n rl l given env w))
               = trace w @ SetExpiration l 0 # evs
            \<and> list_all (own_event rl releaseLock (resources (heap w l))
                  [Num (db (settings rl)), Str (lock_value (heap w l))]) evs)"
proof -
  let ?w0 = "set_expiration l 0 w"
  let ?keys = "resources (heap w l)"
  let ?args = "[Num (db (settings rl)), Str (lock_value (heap w l))]"
  have eq: "release_upto n rl l given env w
      = execute_upto n rl releaseLock ?keys ?args given env ?w0"
    by (simp add: release_upto_def Let_def set_expiration_def)
  from execute_upto_frame [of n rl releaseLock ?keys ?args given env ?w0]
  obtain evs where
    fr: "heap (fst (execute_upto n rl releaseLock ?keys ?args given env ?w0)) = heap ?w0"
      "trace (fst (execute_upto n rl releaseLock ?keys ?args given env ?w0)) = trace ?w0 @ evs"
      "\<forall>e\<in>set evs. own_event rl releaseLock ?keys ?args e"
    by blast
  have "expiration (heap ?w0 l) = 0" "trace ?w0 = trace w @ [SetExpiration l 0]"
    by (simp_all add: set_expiration_def)
  with fr show ?thesis unfolding eq by (simp add: list_all_iff)
qed

lemma release_upto_returned:
  "release_upto n rl l given env w = (w', Some out) \<Longrightarrow>
     release rl l given env w = Some (w', out)"
  using execute_upto_returned by (simp add: release_upto_def release_def Let_def)

lemma release_returns_upto:
  "release rl l given env w = Some (w', out) \<Longrightarrow>
     \<exists>n. release_upto n rl l given env w = (w', Some out)"
  using execute_returns_upto by (simp add: release_upto_def release_def Let_def)

text \<open>
  Claim C8. \<open>release\<close> assigns 0 to the lock's \<open>expiration\<close> before it contacts a
  server. The trace of the call, which keeps the order of what the call does, begins with
  the assignment, and whatever follows is a \<open>releaseLock\<close> command to a server of the
  instance or a delay: no command comes before the assignment and the field is not assigned
  again. This is so at every moment of the call, after any number \<open>n\<close> of turns of the
  retry loop, returned or not (with \<open>retryCount: -1\<close> and servers that keep answering 0 the
  call never returns), and the field is 0 at that moment. What the call returns (a result,
  an \<open>ExecutionError\<close>, or a promise that stays pending) is what it has returned after
  some number of turns, so the field is 0 whenever the call ends.
\<close>

theorem release_invalidates_first:
  "expiration (heap (fst (release_upto n rl l given env w)) l) = 0
 \<and> (\<exists>evs. trace (fst (release_upto n rl l given env w))
             = trace w @ SetExpiration l 0 # evs
          \<and> list_all (own_event rl releaseLock (resources (heap w l))
                [Num (db (settings rl)), Str (lock_value (heap w l))]) evs)
 \<and> (\<forall>out. snd (release_upto n rl l given env w) = Some out \<longrightarrow>
        release rl l given env w = Some (fst (release_upto n rl l given env w), out))
 \<and> (\<forall>w' out. release rl l given env w = Some (w', out) \<longrightarrow>
        (\<exists>k. release_upto k rl l given env w = (w', Some out))
        \<and> expiration (heap w' l) = 0
        \<and> (\<exists>evs. trace w' = trace w @ SetExpiration l 0 # evs
             \<and> list_all (own_event rl releaseLock (resources (heap w l))
                   [Num (db (settings rl)), Str (lock_value (heap w l))]) evs))"
proof -
  have a: "release rl l given env w = Some (fst (release_upto n rl l given env w), out)"
    if "snd (release_upto n rl l given env w) = Some out" for out
    using that release_upto_returned [of n rl l given env w "fst (release_upto n rl l given env w)" out]
    by (cases "release_upto n rl l given env w") simp
  have b: "(\<exists>k. release_upto k rl l given env w = (w', Some out))
        \<and> expiration (heap w' l) = 0
        \<and> (\<exists>evs. trace w' = trace w @ SetExpiration l 0 # evs
             \<and> list_all (own_event rl releaseLock (resources (heap w l))
                   [Num (db (settings rl)), Str (lock_value (heap w l))]) evs)"
    if "release rl l given env w = Some (w', out)" for w' out
  proof -
    from release_returns_upto [OF that] obtain k where
      k: "release_upto k rl l given env w = (w', Some out)" ..
    from release_upto_frame [of k rl l given env w] k show ?thesis by auto
  qed
  from release_upto_frame [of n rl l given env w] a b show ?thesis by blast
qed

lemmas double_eval_simps = plus64_def minus64_def times64_def double_numeral double_one

theorem release_invalidates_first_witness:
  "release rl1 0 (retries (- 1)) (env_reply (ReplyNumber 0)) world1 = None
 \<and> snd (release_upto 3 rl1 0 (retries (- 1)) (env_reply (ReplyNumber 0)) world1) = None
 \<and> expiration (heap (fst (release_upto 3 rl1 0 (retries (- 1)) (env_reply (ReplyNumber 0))
       world1)) 0) = 0
 \<and> trace (fst (release_upto 3 rl1 0 (retries (- 1)) (env_reply (ReplyNumber 0)) world1))
     = [SetExpiration 0 0,
        Call 0 releaseLock [''r''] [Num 0, Str ''v''], Sleep 200,
        Call 0 releaseLock [''r''] [Num 0, Str ''v''], Sleep 200,
        Call 0 releaseLock [''r''] [Num 0, Str ''v''], Sleep 200]
 \<and> snd (release_upto 1 rl1 0 None (env_reply (ReplyNumber 1)) world1)
     = Some (Fulfilled \<lparr>attempts = [voted_for], start = 1000\<rparr>)
 \<and> release rl1 0 None (env_reply (ReplyNumber 1)) world1
     = Some (fst (release_upto 1 rl1 0 None (env_reply (ReplyNumber 1)) world1),
             Fulfilled \<lparr>attempts = [voted_for], start = 1000\<rparr>)
 \<and> (\<exists>w' r. release rl1 0 None (env_reply (ReplyNumber 1)) world1 = Some (w', Fulfilled r)
        \<and> expiration (heap w' 0) = 0
        \<and> trace w' = [SetExpiration 0 0, Call 0 releaseLock [''r''] [Num 0, Str ''v'']])
 \<and> (\<exists>w' e. release rl1 0 (retries 0) (env_reply (ReplyNumber 0)) world1
          = Some (w', Rejected e)
        \<and> expiration (heap w' 0) = 0
        \<and> trace w' = [SetExpiration 0 0, Call 0 releaseLock [''r''] [Num 0, Str ''v'']])"
proof -
  let ?u = "release_upto 3 rl1 0 (retries (- 1)) (env_reply (ReplyNumber 0)) world1"
  have d: "decision rl1 releaseLock [''r''] [Num 0, Str ''v''] (env_reply (ReplyNumber 0) i)
      = Some Against" for i
    by (simp add: decision_def input_defs attempt_defs settle.simps Let_def)
  from execute_loop_unbounded_diverges [of rl1 releaseLock "[''r'']" "[Num 0, Str ''v'']"
      "env_reply (ReplyNumber 0)" "set_expiration 0 0 world1", OF d]
  have n: "release rl1 0 (retries (- 1)) (env_reply (ReplyNumber 0)) world1 = None"
    by (simp add: release_def Let_def set_expiration_def input_defs execute_defs)
  have u: "snd ?u = None"
    "trace (fst ?u) = [SetExpiration 0 0,
        Call 0 releaseLock [''r''] [Num 0, Str ''v''], Sleep 200,
        Call 0 releaseLock [''r''] [Num 0, Str ''v''], Sleep 200,
        Call 0 releaseLock [''r''] [Num 0, Str ''v''], Sleep 200]"
    by (simp_all add: release_upto_def execute_upto_def set_expiration_def input_defs
        execute_defs attempt_defs double_eval_simps Let_def eval_nat_numeral)
  have a: "release rl1 0 None (env_reply (ReplyNumber 1)) world1
      = Some (world_after (release rl1 0 None (env_reply (ReplyNumber 1)) world1),
              Fulfilled \<lparr>attempts = [voted_for], start = 1000\<rparr>)"
    "trace (world_after (release rl1 0 None (env_reply (ReplyNumber 1)) world1))
      = [SetExpiration 0 0, Call 0 releaseLock [''r''] [Num 0, Str ''v'']]"
    by (simp_all add: release_def set_expiration_def input_defs execute_defs attempt_defs
        execute_loop.simps Let_def world_after_def voted_for_def)
  have b: "release rl1 0 (retries 0) (env_reply (ReplyNumber 0)) world1
      = Some (world_after (release rl1 0 (retries 0) (env_reply (ReplyNumber 0)) world1),
              Rejected (ExecutionError quorum_failed [voted_against (ResourceLockedError 0 1)]))"
    "trace (world_after (release rl1 0 (retries 0) (env_reply (ReplyNumber 0)) world1))
      = [SetExpiration 0 0, Call 0 releaseLock [''r''] [Num 0, Str ''v'']]"
    by (simp_all add: release_def set_expiration_def input_defs execute_defs attempt_defs
        execute_loop.simps Let_def world_after_def voted_against_def)
  have t1: "expiration (heap (fst ?u) 0) = 0"
    using release_invalidates_first [of 3 rl1 0 "retries (- 1)" "env_reply (ReplyNumber 0)" world1]
    by blast
  have s1: "snd (release_upto 1 rl1 0 None (env_reply (ReplyNumber 1)) world1)
      = Some (Fulfilled \<lparr>attempts = [voted_for], start = 1000\<rparr>)"
    by (simp add: release_upto_def execute_upto_def set_expiration_def input_defs
        execute_defs attempt_defs Let_def voted_for_def)
  have r1: "release rl1 0 None (env_reply (ReplyNumber 1)) world1
      = Some (fst (release_upto 1 rl1 0 None (env_reply (ReplyNumber 1)) world1),
              Fulfilled \<lparr>attempts = [voted_for], start = 1000\<rparr>)"
    using release_invalidates_first [of 1 rl1 0 None "env_reply (ReplyNumber 1)" world1] s1
    by blast
  have t2: "expiration (heap (world_after
      (release rl1 0 None (env_reply (ReplyNumber 1)) world1)) 0) = 0"
    using release_invalidates_first [of 0 rl1 0 None "env_reply (ReplyNumber 1)" world1] a(1)
    by blast
  have t3: "expiration (heap (world_after
      (release rl1 0 (retries 0) (env_reply (ReplyNumber 0)) world1)) 0) = 0"
    using release_invalidates_first [of 0 rl1 0 "retries 0" "env_reply (ReplyNumber 0)" world1]
      b(1)
    by blast
  from n u t1 s1 r1 a t2 b t3 show ?thesis by blast
qed

subsection \<open>The constructor\<close>

lemma foldl_Set_add:
  "set (foldl Set_add acc xs) = set acc \<union> set xs
 \<and> (distinct acc \<longrightarrow> distinct (foldl Set_add acc xs))"
  by (induction xs arbitrary: acc) (auto simp: Set_add_def)

lemma new_Set_props:
  "set (new_Set xs) = set xs" "distinct (new_Set xs)" "length (new_Set xs) = card (set xs)"
proof -
  show s: "set (new_Set xs) = set xs" and d: "distinct (new_Set xs)"
    using foldl_Set_add [of "[]" xs] by (simp_all add: new_Set_def)
  from distinct_card [OF d] s show "length (new_Set xs) = card (set xs)" by simp
qed

lemma new_Set_empty: "new_Set xs = [] \<longleftrightarrow> xs = []"
  using new_Set_props(1) [of xs] by (metis set_empty)

lemma constructor_clients:
  "constructor cs s = Inr rl \<Longrightarrow> clients rl = new_Set cs \<and> cs \<noteq> []"
  by (auto simp: constructor_def Let_def new_Set_empty split: if_splits)

text \<open>
  Claim C10. The constructor keeps the clients in a \<open>Set\<close>: the instance holds every
  client of the list once, and each attempt computes \<open>membershipSize\<close> and
  \<open>quorumSize\<close> from the number of distinct clients; three references to one client give
  1 and 1. The constructor refuses a list exactly when the set built from it is empty, and
  that is the empty list only.
\<close>

theorem constructor_deduplicates:
  "(case constructor cs s of
      Inl e \<Rightarrow> cs = [] \<and> new_Set cs = []
    | Inr rl \<Rightarrow>
        cs \<noteq> [] \<and> distinct (clients rl) \<and> set (clients rl) = set cs
        \<and> membershipSize (stats (collect rl scr keys args e)) = card (set cs)
        \<and> quorumSize (stats (collect rl scr keys args e)) = card (set cs) div 2 + 1)
 \<and> (case constructor [c, c, c] s of
      Inl e \<Rightarrow> False
    | Inr rl \<Rightarrow>
        clients rl = [c]
        \<and> membershipSize (stats (collect rl scr keys args e)) = 1
        \<and> quorumSize (stats (collect rl scr keys args e)) = 1)"
proof -
  have a: "cs = [] \<and> new_Set cs = []" if "constructor cs s = Inl err" for err
    using that by (auto simp: constructor_def Let_def new_Set_empty split: if_splits)
  have b: "cs \<noteq> [] \<and> distinct (clients rl) \<and> set (clients rl) = set cs
        \<and> membershipSize (stats (collect rl scr keys args e)) = card (set cs)
        \<and> quorumSize (stats (collect rl scr keys args e)) = card (set cs) div 2 + 1"
    if "constructor cs s = Inr rl" for rl
    using constructor_clients [OF that] by (simp add: new_Set_props collect_sizes)
  have c: "\<exists>rl. constructor [c, c, c] s = Inr rl \<and> clients rl = [c]"
    by (simp add: constructor_def new_Set_def Set_add_def Let_def)
  then obtain rl where rl: "constructor [c, c, c] s = Inr rl" "clients rl = [c]" by blast
  have "membershipSize (stats (collect rl scr keys args e)) = 1
        \<and> quorumSize (stats (collect rl scr keys args e)) = 1"
    using rl(2) by (simp add: collect_sizes)
  with rl have c': "case constructor [c, c, c] s of Inl e \<Rightarrow> False
    | Inr rl \<Rightarrow> clients rl = [c]
        \<and> membershipSize (stats (collect rl scr keys args e)) = 1
        \<and> quorumSize (stats (collect rl scr keys args e)) = 1" by simp
  show ?thesis
    using a b c' by (cases "constructor cs s") auto
qed

subsection \<open>Releasing twice\<close>

lemmas release_eval = release_def set_expiration_def input_defs execute_defs attempt_defs
  execute_loop.simps Let_def outcome_def world_after_def

text \<open>
  Against claim C1 as stated: the lock on \<open>r\<close> is released (one key deleted), then
  released again. The second time the server reports 0 keys deleted; that reply differs from
  the number of keys, so it is a vote against, and after 11 attempts the call throws.
\<close>

theorem release_twice_counterexample:
  "outcome (release rl1 0 None env_twice world1)
     = Some (Fulfilled \<lparr>attempts = [voted_for], start = 1000\<rparr>)
 \<and> outcome (release rl1 0 None env_twice (world_after (release rl1 0 None env_twice world1)))
     = Some (Rejected (ExecutionError quorum_failed
         (replicate 11 (voted_against (ResourceLockedError 0 1)))))"
proof -
  have a: "release rl1 0 None env_twice world1
     = Some (world1\<lparr>heap := (heap world1)(0 := lock1\<lparr>expiration := 0\<rparr>),
               trace := [SetExpiration 0 0, Call 0 releaseLock [''r''] [Num 0, Str ''v'']],
               tick := 1\<rparr>,
             Fulfilled \<lparr>attempts = [voted_for], start = 1000\<rparr>)"
    by (simp add: release_eval env_twice_def voted_for_def)
  have b: "outcome (release rl1 0 None env_twice
       (world1\<lparr>heap := (heap world1)(0 := lock1\<lparr>expiration := 0\<rparr>),
               trace := [SetExpiration 0 0, Call 0 releaseLock [''r''] [Num 0, Str ''v'']],
               tick := 1\<rparr>))
     = Some (Rejected (ExecutionError quorum_failed
         (replicate 11 (voted_against (ResourceLockedError 0 1)))))"
    by (simp add: release_eval env_twice_def voted_against_def eval_nat_numeral)
  show ?thesis using a b by (simp add: outcome_def world_after_def)
qed

text \<open>
  Claim C1, amended. A reply of 0 to \<open>releaseLock\<close> is judged like every other reply:
  for a lock with at least one resource it is a vote against, with a
  \<open>ResourceLockedError\<close>. When every server of the instance reports 0 in each attempt
  and \<open>retryCount\<close> is \<open>k\<close>, the release throws an \<open>ExecutionError\<close> after
  \<open>k + 1\<close> attempts.
\<close>

theorem release_reply_zero:
  assumes "constructor cs s = Inr rl"
    and "retryCount (merge (settings rl) given) = real k"
    and "\<And>i. i \<le> k \<Longrightarrow> all_reply rl (ReplyNumber 0) (env (tick w + i))"
    and "resources (heap w l) \<noteq> []"
  shows "attemptOperationOnClient c releaseLock (resources (heap w l)) args (ReplyNumber 0)
           = Fulfilled (VoteAgainst c (ResourceLockedError 0 (length (resources (heap w l)))))
         \<and> (\<exists>w' sts. release rl l given env w
               = Some (w', Rejected (ExecutionError quorum_failed sts))
             \<and> length sts = k + 1)"
proof -
  let ?keys = "resources (heap w l)"
  let ?args = "[Num (db (settings rl)), Str (lock_value (heap w l))]"
  let ?w0 = "set_expiration l 0 w"
  from constructor_clients [OF assms(1)]
  have cl: "distinct (clients rl)" "clients rl \<noteq> []"
    by (simp_all add: new_Set_props new_Set_empty)
  have dec: "decision rl releaseLock ?keys ?args (env (tick ?w0 + i)) = Some Against"
    if "i \<le> k" for i
  proof (rule decision_all_against [OF cl])
    from assms(3) [OF that]
    show "set (clients rl) \<subseteq> fst ` set (settles (env (tick ?w0 + i)))"
      by (simp add: all_reply_def set_expiration_def)
  next
    fix c r assume "(c, r) \<in> set (settles (env (tick ?w0 + i)))"
    with assms(3) [OF that] have "r = ReplyNumber 0"
      by (force simp: all_reply_def set_expiration_def)
    with assms(4)
    show "\<exists>err. attemptOperationOnClient c releaseLock ?keys ?args r
        = Fulfilled (VoteAgainst c err)"
      by (simp add: attemptOperationOnClient_def)
  qed
  have m: "maxAttempts (merge (settings rl) given) = Some (real k + 1)"
    using assms(2) by (simp add: maxAttempts_def)
  from execute_loop_exhausted [of k rl releaseLock ?keys ?args env ?w0, OF dec]
  obtain w' sts where
    "execute_loop rl releaseLock ?keys ?args (Some (real k + 1))
        (retryDelay (merge (settings rl) given)) (retryJitter (merge (settings rl) given))
        env [] ?w0 = Some (w', Rejected (ExecutionError quorum_failed sts))"
    "length sts = k + 1" by blast
  then have "\<exists>w' sts. release rl l given env w
               = Some (w', Rejected (ExecutionError quorum_failed sts))
             \<and> length sts = k + 1"
    by (simp add: release_def execute_def Let_def m set_expiration_def)
  with assms(4) show ?thesis by (simp add: attemptOperationOnClient_def)
qed

theorem release_reply_zero_witness:
  "attemptOperationOnClient 0 releaseLock [''r''] [] (ReplyNumber 0)
     = Fulfilled (VoteAgainst 0 (ResourceLockedError 0 1))
 \<and> (\<exists>w' sts. release rl1 0 None (env_reply (ReplyNumber 0)) world1
           = Some (w', Rejected (ExecutionError quorum_failed sts))
         \<and> length sts = 11)"
proof -
  have a: "constructor [0] noSettings = Inr rl1"
    by (simp add: constructor_def new_Set_def Set_add_def Let_def pick_def pick_db_def
        noSettings_def rl1_def defaultSettings_def)
  have b: "retryCount (merge (settings rl1) None) = real 10"
    by (simp add: merge_def rl1_def defaultSettings_def)
  have c: "all_reply rl1 (ReplyNumber 0) (env_reply (ReplyNumber 0) (tick world1 + i))" for i
    by (simp add: all_reply_def rl1_def env_reply_def)
  have d: "resources (heap world1 0) \<noteq> []" by (simp add: world1_def lock1_def)
  from release_reply_zero [where env = "env_reply (ReplyNumber 0)" and k = 10 and c = 0
      and args = "[]", OF a b c d]
  show ?thesis by (simp add: world1_def lock1_def)
qed

subsection \<open>Acquire\<close>

lemma execute_result:
  assumes "execute rl command keys args given env w = Some (w', out)"
  shows "case out of
           Fulfilled r \<Rightarrow>
             tick w < tick w' \<and> length (attempts r) = tick w' - tick w
             \<and> start r = now (env (tick w' - 1))
             \<and> decision rl command keys args (env (tick w' - 1)) = Some For
         | Rejected e \<Rightarrow> \<exists>sts. e = ExecutionError quorum_failed sts
             \<and> length sts = tick w' - tick w
         | Pending \<Rightarrow>
             tick w < tick w' \<and> decision rl command keys args (env (tick w' - 1)) = None"
proof -
  let ?s = "merge (settings rl) given"
  have "execute_loop rl command keys args (maxAttempts ?s) (retryDelay ?s) (retryJitter ?s)
      env [] w = Some (w', out)"
    using assms by (simp add: execute_def Let_def)
  from execute_loop_result [OF this] show ?thesis
    by (cases out) auto
qed







lemmas acquire_eval = acquire_def new_Lock_def drift_def effective_driftFactor_def
  input_defs execute_defs attempt_defs execute_loop.simps Let_def outcome_def world_after_def


text \<open>
  Against claim C3 as stated: the largest integer a double counts exactly,
  \<open>2 ^ 53 - 1 = 9007199254740991\<close>, as the duration, with a drift factor of 0 in the
  settings of the call, an attempt that starts at 1000 and a server that sets the key. The
  sum \<open>1000 + 9007199254740991\<close> lies halfway between two doubles and is rounded to the
  upper one, \<open>9007199254741992\<close>; the drift is 2; the expiration is
  \<open>9007199254741990\<close>, above \<open>attemptStart + d - (round (f * d) + 2) = 9007199254741989\<close>.
\<close>

theorem acquire_large_duration_counterexample:
  "outcome (acquire rl1 [''r''] 9007199254740991 no_drift ''v'' (env_reply (ReplyNumber 1))
      world1) = Some (Fulfilled 1)
 \<and> effective_driftFactor rl1 no_drift = 0
 \<and> now (env_reply (ReplyNumber 1) 0) = 1000
 \<and> expiration (heap (world_after
       (acquire rl1 [''r''] 9007199254740991 no_drift ''v'' (env_reply (ReplyNumber 1))
          world1)) 1) = 9007199254741990
 \<and> (1000 :: real) + 9007199254740991 - (of_int (round (0 * 9007199254740991 :: real)) + 2)
     = 9007199254741989
 \<and> (1000 :: real) + 9007199254740991 - 2 = 9007199254741989"
  by (simp add: acquire_eval no_drift_def expires_def double_eval_simps
      double_9007199254741991 double_9007199254741990)

text \<open>
  Claim C3, amended. After a successful \<open>acquire\<close> the new lock's expiration is computed
  from the start \<open>t\<close> of the attempt that was decided for (the last attempt made), the
  duration \<open>d\<close> and the drift factor \<open>f\<close> in effect as \<open>t + d - (round (f * d) + 2)\<close>
  in double arithmetic: the product, the two sums and the difference are each rounded to
  the nearest double. When \<open>f\<close> and \<open>d\<close> are not negative, that is at most the double
  nearest to \<open>(t + d) - 2\<close>, with \<open>t + d\<close> rounded first. When \<open>t\<close> is an integer (the
  duration is one) and the two sums and the difference stay within \<open>2 ^ 53\<close> in
  magnitude, only the product is rounded, and the expiration is
  \<open>t + d - (round (double (f * d)) + 2)\<close> exactly; when moreover \<open>f\<close>, \<open>d\<close> and \<open>t\<close> are
  not negative and \<open>t + d\<close> is at most \<open>2 ^ 53\<close>, it is at most \<open>t + d - 2\<close>.
\<close>

theorem acquire_expiration:
  assumes "acquire rl res d given v env w = Some (w', Fulfilled l)"
    and "f = effective_driftFactor rl given"
    and "t = now (env (tick w' - 1))"
    and "no_overflow t d f"
  shows "tick w < tick w'
       \<and> decision rl acquireLock res [Num (db (settings rl)), Str v, Num d]
           (env (tick w' - 1)) = Some For
       \<and> expiration (heap w' l)
           = double (double (t + d) - double (of_int (round (double (f * d))) + 2))
       \<and> (0 \<le> f \<and> 0 \<le> d \<longrightarrow> expiration (heap w' l) \<le> double (double (t + d) - 2))
       \<and> (of_int \<lfloor>t\<rfloor> = t \<and> \<bar>t + d\<bar> \<le> 2 ^ 53
            \<and> \<bar>of_int (round (double (f * d))) + 2 :: real\<bar> \<le> 2 ^ 53
            \<and> \<bar>t + d - (of_int (round (double (f * d))) + 2)\<bar> \<le> 2 ^ 53 \<longrightarrow>
            expiration (heap w' l) = t + d - (of_int (round (double (f * d))) + 2))
       \<and> (0 \<le> f \<and> 0 \<le> d \<and> of_int \<lfloor>t\<rfloor> = t \<and> 0 \<le> t \<and> t + d \<le> 2 ^ 53 \<longrightarrow>
            expiration (heap w' l) \<le> t + d - 2)"
proof -
  let ?args = "[Num (db (settings rl)), Str v, Num d]"
  let ?f = "effective_driftFactor rl given"
  from assms(1) have int: "of_int \<lfloor>d\<rfloor> = d" by (auto simp: acquire_def split: if_splits)
  have "\<exists>w1 r. execute rl acquireLock res ?args given env w = Some (w1, Fulfilled r)
      \<and> w' = fst (new_Lock \<lparr>resources = res, lock_value = v, lock_attempts = attempts r,
                     expiration = expires (start r) d (drift ?f d), lock_settings = given\<rparr> w1)
      \<and> l = next_ref w1"
  proof (cases "execute rl acquireLock res ?args given env w")
    case None
    with assms(1) int show ?thesis by (simp add: acquire_def)
  next
    case (Some y)
    obtain w1 o1 where y: "y = (w1, o1)" by (cases y)
    show ?thesis
    proof (cases o1)
      case (Fulfilled r)
      with assms(1) int Some y show ?thesis by (auto simp: acquire_def new_Lock_def)
    next
      case Pending
      with assms(1) int Some y show ?thesis by (simp add: acquire_def)
    next
      case (Rejected err)
      with assms(1) int Some y show ?thesis
        by (simp add: acquire_def split: option.splits prod.splits promise.splits)
    qed
  qed
  then obtain w1 r where
    ex: "execute rl acquireLock res ?args given env w = Some (w1, Fulfilled r)"
    and w': "w' = fst (new_Lock \<lparr>resources = res, lock_value = v, lock_attempts = attempts r,
                     expiration = expires (start r) d (drift ?f d), lock_settings = given\<rparr> w1)"
    and l: "l = next_ref w1"
    by blast
  from execute_result [OF ex] have r: "tick w < tick w1" "start r = now (env (tick w1 - 1))"
    "decision rl acquireLock res ?args (env (tick w1 - 1)) = Some For" by simp_all
  have tk: "tick w' = tick w1" by (simp add: w' new_Lock_def)
  have e: "expiration (heap w' l) = expires t d (drift f d)"
    by (simp add: w' l new_Lock_def r(2) assms(2,3) tk)
  have e1: "expiration (heap w' l)
      = double (double (t + d) - double (of_int (round (double (f * d))) + 2))"
    unfolding e by (rule expires_drift)
  have e2: "expiration (heap w' l) \<le> double (double (t + d) - 2)" if "0 \<le> f" "0 \<le> d"
    unfolding e using that by (rule expires_le_double)
  have e3: "expiration (heap w' l) = t + d - (of_int (round (double (f * d))) + 2)"
    if "of_int \<lfloor>t\<rfloor> = t" "\<bar>t + d\<bar> \<le> 2 ^ 53"
      "\<bar>of_int (round (double (f * d))) + 2 :: real\<bar> \<le> 2 ^ 53"
      "\<bar>t + d - (of_int (round (double (f * d))) + 2)\<bar> \<le> 2 ^ 53"
    unfolding e using that(1) int that(2-4) by (rule expires_exact)
  have e4: "expiration (heap w' l) \<le> t + d - 2"
    if "0 \<le> f" "0 \<le> d" "of_int \<lfloor>t\<rfloor> = t" "0 \<le> t" "t + d \<le> 2 ^ 53"
    unfolding e using that(1,2,3) int that(4,5) by (rule expires_le_exact)
  from r(1,3) tk e1 e2 e3 e4 show ?thesis by simp
qed

theorem acquire_expiration_witness:
  "acquire rl1 [''r''] 1000 None ''v'' (env_reply (ReplyNumber 1)) world1
     = Some (world_after (acquire rl1 [''r''] 1000 None ''v'' (env_reply (ReplyNumber 1)) world1),
             Fulfilled 1)
 \<and> double (1 / 100) = effective_driftFactor rl1 None
 \<and> 1000 = now (env_reply (ReplyNumber 1)
       (tick (world_after
          (acquire rl1 [''r''] 1000 None ''v'' (env_reply (ReplyNumber 1)) world1)) - 1))
 \<and> no_overflow 1000 1000 (double (1 / 100))
 \<and> 0 \<le> double (1 / 100) \<and> (0 :: real) \<le> 1000
 \<and> of_int \<lfloor>1000 :: real\<rfloor> = (1000 :: real) \<and> (1000 :: real) + 1000 \<le> 2 ^ 53
 \<and> round (double (double (1 / 100) * 1000)) = 10
 \<and> expiration (heap (world_after
       (acquire rl1 [''r''] 1000 None ''v'' (env_reply (ReplyNumber 1)) world1)) 1)
     = 1000 + 1000 - (10 + 2)
 \<and> expiration (heap (world_after
       (acquire rl1 [''r''] 1000 None ''v'' (env_reply (ReplyNumber 1)) world1)) 1)
     \<le> 1000 + 1000 - 2"
proof -
  let ?a = "acquire rl1 [''r''] 1000 None ''v'' (env_reply (ReplyNumber 1)) world1"
  have a: "?a = Some (world_after ?a, Fulfilled 1)"
    by (simp add: acquire_eval)
  have f: "double (1 / 100) = effective_driftFactor rl1 None"
    by (simp add: effective_driftFactor_def input_defs)
  have n: "1000 = now (env_reply (ReplyNumber 1) (tick (world_after ?a) - 1))"
    by (simp add: env_reply_def)
  note o = no_overflow_hundredth_1000
  have rd: "round (double (double (1 / 100) * 1000)) = 10"
    by (simp add: double_hundredth_1000)
  have c: "0 \<le> double (1 / 100)" "(0 :: real) \<le> 1000"
    "of_int \<lfloor>1000 :: real\<rfloor> = (1000 :: real)" "(1000 :: real) + 1000 \<le> 2 ^ 53"
    by (simp_all add: double_hundredth_nonneg)
  note b = within_2_53
  from acquire_expiration [OF a f n o] c b rd
  have "expiration (heap (world_after ?a) 1) = 1000 + 1000 - (10 + 2)"
    "expiration (heap (world_after ?a) 1) \<le> 1000 + 1000 - 2"
    by simp_all
  with a f n o c rd show ?thesis by blast
qed

subsection \<open>Extend\<close>

lemma extend_cases:
  assumes "extend rl existing d given clock env w = Some (w', out)"
  shows "(of_int \<lfloor>d\<rfloor> \<noteq> d \<and> w' = w \<and> out = Rejected (Thrown (Error not_integer)))
       \<or> (of_int \<lfloor>d\<rfloor> = d \<and> expiration (heap w existing) < clock \<and> w' = w
            \<and> out = Rejected (ExecutionError already_expired []))
       \<or> (of_int \<lfloor>d\<rfloor> = d \<and> \<not> expiration (heap w existing) < clock
            \<and> (\<exists>e. out = Rejected e \<and>
                  execute rl extendLock (resources (heap w existing))
                    [Num (db (settings rl)), Str (lock_value (heap w existing)), Num d]
                    given env w = Some (w', Rejected e)))
       \<or> (of_int \<lfloor>d\<rfloor> = d \<and> \<not> expiration (heap w existing) < clock
            \<and> out = Pending
            \<and> execute rl extendLock (resources (heap w existing))
                 [Num (db (settings rl)), Str (lock_value (heap w existing)), Num d]
                 given env w = Some (w', Pending))
       \<or> (of_int \<lfloor>d\<rfloor> = d \<and> \<not> expiration (heap w existing) < clock
            \<and> (\<exists>w1 r. execute rl extendLock (resources (heap w existing))
                    [Num (db (settings rl)), Str (lock_value (heap w existing)), Num d]
                    given env w = Some (w1, Fulfilled r)
                \<and> out = Fulfilled (next_ref w1)
                \<and> w' = w1\<lparr>heap := (heap w1)
                          (existing := (heap w1 existing)\<lparr>expiration := 0\<rparr>,
                           next_ref w1 :=
                             \<lparr>resources = resources (heap w1 existing),
                              lock_value = lock_value (heap w1 existing),
                              lock_attempts = attempts r,
                              expiration = expires (start r) d
                                (drift (effective_driftFactor rl given) d),
                              lock_settings = given\<rparr>),
                        trace := trace w1 @ [SetExpiration existing 0],
                        next_ref := Suc (next_ref w1)\<rparr>))"
proof (cases "of_int \<lfloor>d\<rfloor> = d")
  case False
  with assms show ?thesis by (auto simp: extend_def)
next
  case int: True
  show ?thesis
  proof (cases "expiration (heap w existing) < clock")
    case True
    with assms int show ?thesis by (auto simp: extend_def)
  next
    case live: False
    let ?ex = "execute rl extendLock (resources (heap w existing))
                    [Num (db (settings rl)), Str (lock_value (heap w existing)), Num d]
                    given env w"
    show ?thesis
    proof (cases ?ex)
      case None
      with assms int live show ?thesis by (simp add: extend_def)
    next
      case (Some y)
      obtain w1 o1 where y: "y = (w1, o1)" by (cases y)
      show ?thesis
      proof (cases o1)
        case (Fulfilled r)
        with assms int live Some y show ?thesis
          by (auto simp: extend_def new_Lock_def set_expiration_def Let_def)
      next
        case Pending
        with assms int live Some y show ?thesis by (auto simp: extend_def)
      next
        case (Rejected err)
        with assms int live Some y show ?thesis by (auto simp: extend_def)
      qed
    qed
  qed
qed

text \<open>
  Claim C4. A successful \<open>extend\<close> of the lock at address \<open>existing\<close> leaves that
  object with expiration 0 and nothing else changed, and returns a newly allocated object,
  at another address, with the old resources and value, the attempts of this call's run of
  the retry loop (one per attempt made), and the expiration computed by the drift formula
  from the start \<open>t\<close> of the attempt that was decided for: \<open>t + d - (round (f * d) + 2)\<close>
  in double arithmetic, the product, the two sums and the difference each rounded to the
  nearest double. When \<open>t\<close> is an integer and the two sums and the difference stay within
  \<open>2 ^ 53\<close> in magnitude, only the product is rounded.
\<close>

theorem extend_replaces_lock:
  assumes "extend rl existing d given clock env w = Some (w', Fulfilled l)"
    and "existing < next_ref w"
  shows "heap w' existing = (heap w existing)\<lparr>expiration := 0\<rparr>
       \<and> expiration (heap w' existing) = 0
       \<and> l \<noteq> existing \<and> l = next_ref w \<and> next_ref w' = Suc l
       \<and> resources (heap w' l) = resources (heap w existing)
       \<and> lock_value (heap w' l) = lock_value (heap w existing)
       \<and> (\<exists>w1 r. execute rl extendLock (resources (heap w existing))
               [Num (db (settings rl)), Str (lock_value (heap w existing)), Num d]
               given env w = Some (w1, Fulfilled r)
             \<and> lock_attempts (heap w' l) = attempts r)
       \<and> length (lock_attempts (heap w' l)) = tick w' - tick w
       \<and> tick w < tick w'
       \<and> decision rl extendLock (resources (heap w existing))
               [Num (db (settings rl)), Str (lock_value (heap w existing)), Num d]
               (env (tick w' - 1)) = Some For
       \<and> (no_overflow (now (env (tick w' - 1))) d (effective_driftFactor rl given) \<longrightarrow>
            expiration (heap w' l)
              = double (double (now (env (tick w' - 1)) + d)
                  - double (of_int (round (double (effective_driftFactor rl given * d))) + 2))
            \<and> (of_int \<lfloor>now (env (tick w' - 1))\<rfloor> = now (env (tick w' - 1))
                 \<and> \<bar>now (env (tick w' - 1)) + d\<bar> \<le> 2 ^ 53
                 \<and> \<bar>of_int (round (double (effective_driftFactor rl given * d))) + 2 :: real\<bar>
                     \<le> 2 ^ 53
                 \<and> \<bar>now (env (tick w' - 1)) + d
                      - (of_int (round (double (effective_driftFactor rl given * d))) + 2)\<bar>
                     \<le> 2 ^ 53 \<longrightarrow>
                 expiration (heap w' l)
                   = now (env (tick w' - 1)) + d
                       - (of_int (round (double (effective_driftFactor rl given * d))) + 2)))"
proof -
  let ?keys = "resources (heap w existing)"
  let ?t = "now (env (tick w' - 1))"
  let ?f = "effective_driftFactor rl given"
  let ?args = "[Num (db (settings rl)), Str (lock_value (heap w existing)), Num d]"
  from extend_cases [OF assms(1)] obtain w1 r where
    ex: "execute rl extendLock ?keys ?args given env w = Some (w1, Fulfilled r)"
    and l: "l = next_ref w1"
    and w': "w' = w1\<lparr>heap := (heap w1)
                          (existing := (heap w1 existing)\<lparr>expiration := 0\<rparr>,
                           next_ref w1 :=
                             \<lparr>resources = resources (heap w1 existing),
                              lock_value = lock_value (heap w1 existing),
                              lock_attempts = attempts r,
                              expiration = expires (start r) d
                                (drift (effective_driftFactor rl given) d),
                              lock_settings = given\<rparr>),
                        trace := trace w1 @ [SetExpiration existing 0],
                        next_ref := Suc (next_ref w1)\<rparr>"
    by auto
  from execute_frame [OF ex] have fr: "heap w1 = heap w" "next_ref w1 = next_ref w" by simp_all
  from execute_result [OF ex] have r: "tick w < tick w1" "length (attempts r) = tick w1 - tick w"
    "start r = now (env (tick w1 - 1))"
    "decision rl extendLock ?keys ?args (env (tick w1 - 1)) = Some For" by simp_all
  have ne: "existing \<noteq> next_ref w" using assms(2) by simp
  have t: "tick w' = tick w1" by (simp add: w')
  have old: "heap w' existing = (heap w existing)\<lparr>expiration := 0\<rparr>"
    using ne by (simp add: w' fr)
  have new: "heap w' l = \<lparr>resources = resources (heap w existing),
       lock_value = lock_value (heap w existing), lock_attempts = attempts r,
       expiration = expires (start r) d (drift ?f d),
       lock_settings = given\<rparr>"
    by (simp add: w' l fr)
  have nx: "next_ref w' = Suc l" by (simp add: w' l)
  from extend_cases [OF assms(1)] have int: "of_int \<lfloor>d\<rfloor> = d" by auto
  have e: "expiration (heap w' l) = expires ?t d (drift ?f d)"
    by (simp add: new r(3) t)
  have e1: "expiration (heap w' l)
      = double (double (?t + d) - double (of_int (round (double (?f * d))) + 2))"
    unfolding e by (rule expires_drift)
  have e3: "expiration (heap w' l) = ?t + d - (of_int (round (double (?f * d))) + 2)"
    if "of_int \<lfloor>?t\<rfloor> = ?t" "\<bar>?t + d\<bar> \<le> 2 ^ 53"
      "\<bar>of_int (round (double (?f * d))) + 2 :: real\<bar> \<le> 2 ^ 53"
      "\<bar>?t + d - (of_int (round (double (?f * d))) + 2)\<bar> \<le> 2 ^ 53"
    unfolding e using that(1) int that(2-4) by (rule expires_exact)
  have rest: "heap w' existing = (heap w existing)\<lparr>expiration := 0\<rparr>
       \<and> expiration (heap w' existing) = 0
       \<and> l \<noteq> existing \<and> l = next_ref w \<and> next_ref w' = Suc l
       \<and> resources (heap w' l) = resources (heap w existing)
       \<and> lock_value (heap w' l) = lock_value (heap w existing)
       \<and> (\<exists>w1 r. execute rl extendLock (resources (heap w existing))
               [Num (db (settings rl)), Str (lock_value (heap w existing)), Num d]
               given env w = Some (w1, Fulfilled r)
             \<and> lock_attempts (heap w' l) = attempts r)
       \<and> length (lock_attempts (heap w' l)) = tick w' - tick w
       \<and> tick w < tick w'
       \<and> decision rl extendLock (resources (heap w existing))
               [Num (db (settings rl)), Str (lock_value (heap w existing)), Num d]
               (env (tick w' - 1)) = Some For"
    using old new nx ne l fr(2) ex r t by simp
  from rest e1 e3 show ?thesis by blast
qed

theorem extend_replaces_lock_witness:
  "extend rl1 0 1000 None 2000 (env_reply (ReplyNumber 1)) world1
     = Some (world_after (extend rl1 0 1000 None 2000 (env_reply (ReplyNumber 1)) world1),
             Fulfilled 1)
 \<and> (0::nat) < next_ref world1
 \<and> no_overflow 1000 1000 (double (1 / 100))
 \<and> of_int \<lfloor>1000 :: real\<rfloor> = (1000 :: real)
 \<and> round (double (double (1 / 100) * 1000)) = 10
 \<and> expiration (heap (world_after
       (extend rl1 0 1000 None 2000 (env_reply (ReplyNumber 1)) world1)) 0) = 0
 \<and> expiration (heap (world_after
       (extend rl1 0 1000 None 2000 (env_reply (ReplyNumber 1)) world1)) 1)
     = 1000 + 1000 - (10 + 2)
 \<and> heap (world_after (extend rl1 0 1000 None 2000 (env_reply (ReplyNumber 1)) world1)) 1
     = \<lparr>resources = [''r''], lock_value = ''v'', lock_attempts = [voted_for],
        expiration = 1988, lock_settings = None\<rparr>"
proof -
  let ?x = "extend rl1 0 1000 None 2000 (env_reply (ReplyNumber 1)) world1"
  have a: "?x = Some (world_after ?x, Fulfilled 1)"
    by (simp add: extend_def set_expiration_def acquire_eval)
  have b: "(0::nat) < next_ref world1" by (simp add: world1_def)
  have f: "effective_driftFactor rl1 None = double (1 / 100)"
    by (simp add: effective_driftFactor_def input_defs)
  have n: "now (env_reply (ReplyNumber 1) (tick (world_after ?x) - 1)) = 1000"
    by (simp add: env_reply_def)
  have i: "of_int \<lfloor>1000 :: real\<rfloor> = (1000 :: real)" by simp
  have rd: "round (double (double (1 / 100) * 1000)) = 10"
    by (simp add: double_hundredth_1000)
  have c: "heap (world_after ?x) 1
     = \<lparr>resources = [''r''], lock_value = ''v'', lock_attempts = [voted_for],
        expiration = 1988, lock_settings = None\<rparr>"
    by (simp add: extend_def set_expiration_def acquire_def new_Lock_def
        effective_driftFactor_def input_defs execute_defs attempt_defs execute_loop.simps
        Let_def world_after_def voted_for_def drift_hundredth_1000 expires_1000_1000_12)
  note th = extend_replaces_lock [OF a b, unfolded f n]
  from th have e0: "expiration (heap (world_after ?x) 0) = 0" by blast
  from th no_overflow_hundredth_1000 within_2_53 i
  have "expiration (heap (world_after ?x) 1)
      = 1000 + 1000 - (of_int (round (double (double (1 / 100) * 1000))) + 2)"
    by blast
  then have e1: "expiration (heap (world_after ?x) 1) = 1000 + 1000 - (10 + 2)"
    by (simp add: rd)
  from a b c i rd no_overflow_hundredth_1000 e0 e1 show ?thesis by blast
qed

text \<open>
  Against claim C5 as stated: the lock expired at 5000, the clock reads 6000, and the
  duration is half a millisecond. The duration is checked first, so the call throws the
  plain \<open>Error\<close> about the duration, not the \<open>ExecutionError\<close> about the expired lock.
\<close>

theorem extend_expired_counterexample:
  "expiration (heap world1 0) < 6000
 \<and> extend rl1 0 (1 / 2) None 6000 (env_reply (ReplyNumber 1)) world1
     = Some (world1, Rejected (Thrown (Error not_integer)))"
  by (simp add: extend_def world1_def lock1_def)

text \<open>
  Claim C5, amended. With an integer duration, \<open>extend\<close> on a lock whose expiration is
  below the clock throws \<open>ExecutionError\<close> with the message about the expired lock and an
  empty list of attempts, in an unchanged world: no command was sent. And whenever
  \<open>extend\<close> throws, or stays pending, the heap is as it was, the lock's expiration
  included.
\<close>

theorem extend_failure_leaves_lock:
  "(of_int \<lfloor>d\<rfloor> = d \<and> expiration (heap w existing) < clock \<longrightarrow>
      extend rl existing d given clock env w
        = Some (w, Rejected (ExecutionError already_expired [])))
 \<and> (extend rl existing d given clock env w = Some (w', out)
      \<and> ((\<exists>e. out = Rejected e) \<or> out = Pending) \<longrightarrow>
      heap w' = heap w \<and> expiration (heap w' existing) = expiration (heap w existing))"
proof -
  have a: "of_int \<lfloor>d\<rfloor> = d \<and> expiration (heap w existing) < clock \<longrightarrow>
      extend rl existing d given clock env w
        = Some (w, Rejected (ExecutionError already_expired []))"
    by (simp add: extend_def)
  have b: "heap w' = heap w"
    if x: "extend rl existing d given clock env w = Some (w', out)"
      and o: "(\<exists>e. out = Rejected e) \<or> out = Pending"
  proof -
    from extend_cases [OF x] o
    consider "w' = w"
      | e where "execute rl extendLock (resources (heap w existing))
                    [Num (db (settings rl)), Str (lock_value (heap w existing)), Num d]
                    given env w = Some (w', Rejected e)"
      | "execute rl extendLock (resources (heap w existing))
                 [Num (db (settings rl)), Str (lock_value (heap w existing)), Num d]
                 given env w = Some (w', Pending)"
      by auto
    then show ?thesis
    proof cases
      case 1
      then show ?thesis by simp
    next
      case 2
      from execute_frame(1) [OF 2] show ?thesis .
    next
      case 3
      from execute_frame(1) [OF 3] show ?thesis .
    qed
  qed
  from a b show ?thesis by auto
qed

theorem extend_failure_leaves_lock_witness:
  "of_int \<lfloor>1000 :: real\<rfloor> = (1000 :: real) \<and> expiration (heap world1 0) < 6000
 \<and> extend rl1 0 1000 None 6000 (env_reply (ReplyNumber 1)) world1
     = Some (world1, Rejected (ExecutionError already_expired []))
 \<and> outcome (extend rl1 0 1000 (retries 0) 2000 (env_reply (ReplyNumber 0)) world1)
     = Some (Rejected (ExecutionError quorum_failed [voted_against (ResourceLockedError 0 1)]))
 \<and> expiration (heap (world_after
       (extend rl1 0 1000 (retries 0) 2000 (env_reply (ReplyNumber 0)) world1)) 0)
     = expiration (heap world1 0)"
proof -
  let ?x = "extend rl1 0 1000 (retries 0) 2000 (env_reply (ReplyNumber 0)) world1"
  have a: "of_int \<lfloor>1000 :: real\<rfloor> = (1000 :: real)" by simp
  have b: "expiration (heap world1 0) < 6000" by (simp add: world1_def lock1_def)
  have c: "?x = Some (world_after ?x,
      Rejected (ExecutionError quorum_failed [voted_against (ResourceLockedError 0 1)]))"
    by (simp add: extend_def set_expiration_def acquire_eval voted_against_def)
  have c': "outcome ?x
      = Some (Rejected (ExecutionError quorum_failed [voted_against (ResourceLockedError 0 1)]))"
    by (simp add: extend_def set_expiration_def acquire_eval voted_against_def)
  have t1: "extend rl1 0 1000 None 6000 (env_reply (ReplyNumber 1)) world1
      = Some (world1, Rejected (ExecutionError already_expired []))"
    using extend_failure_leaves_lock [of 1000 world1 0 6000 rl1 None
        "env_reply (ReplyNumber 1)" world1 Pending] a b
    by blast
  have t2: "expiration (heap (world_after ?x) 0) = expiration (heap world1 0)"
    using extend_failure_leaves_lock [of 1000 world1 0 2000 rl1 "retries 0"
      "env_reply (ReplyNumber 0)" "world_after ?x"
      "Rejected (ExecutionError quorum_failed [voted_against (ResourceLockedError 0 1)])"] c
    by blast
  from a b c' t1 t2 show ?thesis by simp
qed

subsection \<open>The database index\<close>

lemma own_event_sends_db:
  "own_event rl scr keys (Num x # rest) e \<Longrightarrow> sends_db x e"
  by (cases e) (auto simp: own_event_def sends_db_def)

lemma execute_sends_db:
  assumes "execute rl scr keys (Num x # rest) given env w = Some (w', out)"
  shows "\<exists>evs. trace w' = trace w @ evs \<and> list_all (sends_db x) evs"
proof -
  from execute_frame(4) [OF assms] obtain evs where
    "trace w' = trace w @ evs" "\<forall>e\<in>set evs. own_event rl scr keys (Num x # rest) e" by blast
  then show ?thesis by (auto simp: list_all_iff intro: own_event_sends_db)
qed

lemma execute_db_opt:
  "execute rl scr keys args (Some (p\<lparr>db_opt := x\<rparr>)) env w
     = execute rl scr keys args (Some p) env w"
  by (simp add: execute_def merge_def maxAttempts_def)

lemma acquire_sends_db:
  assumes "acquire rl res d given v env w = Some (w', out)"
  shows "\<exists>evs. trace w' = trace w @ evs \<and> list_all (sends_db (db (settings rl))) evs"
proof (cases "of_int \<lfloor>d\<rfloor> = d")
  case False
  with assms have "w' = w" by (auto simp: acquire_def)
  then show ?thesis by simp
next
  case int: True
  let ?ex = "execute rl acquireLock res [Num (db (settings rl)), Str v, Num d] given env w"
  show ?thesis
  proof (cases ?ex)
    case None
    with assms int show ?thesis by (simp add: acquire_def)
  next
    case (Some y)
    obtain w1 o1 where y: "y = (w1, o1)" by (cases y)
    from execute_sends_db [OF Some [unfolded y]] obtain evs1 where
      e1: "trace w1 = trace w @ evs1" "list_all (sends_db (db (settings rl))) evs1" by blast
    show ?thesis
    proof (cases o1)
      case (Fulfilled r)
      with assms int Some y have "trace w' = trace w1" by (auto simp: acquire_def new_Lock_def)
      with e1 show ?thesis by simp
    next
      case Pending
      with assms int Some y have "w' = w1" by (auto simp: acquire_def)
      with e1 show ?thesis by simp
    next
      case (Rejected err)
      let ?rel = "execute rl releaseLock res [Num (db (settings rl)), Str v]
                     (Some (noSettings\<lparr>retryCount_opt := Some 0\<rparr>)) env w1"
      from assms int Some y Rejected obtain o2 where rel: "?rel = Some (w', o2)"
        by (auto simp: acquire_def split: option.splits promise.splits)
      from execute_sends_db [OF rel] obtain evs2 where
        "trace w' = trace w1 @ evs2" "list_all (sends_db (db (settings rl))) evs2" by blast
      with e1 have "trace w' = trace w @ (evs1 @ evs2)"
        "list_all (sends_db (db (settings rl))) (evs1 @ evs2)" by simp_all
      then show ?thesis by blast
    qed
  qed
qed

lemma release_sends_db:
  assumes "release rl l given env w = Some (w', out)"
  shows "\<exists>evs. trace w' = trace w @ evs \<and> list_all (sends_db (db (settings rl))) evs"
proof -
  from assms have "execute rl releaseLock (resources (heap w l))
      [Num (db (settings rl)), Str (lock_value (heap w l))] given env (set_expiration l 0 w)
      = Some (w', out)"
    by (simp add: release_def Let_def set_expiration_def)
  from execute_sends_db [OF this] obtain evs where
    "trace w' = trace (set_expiration l 0 w) @ evs" "list_all (sends_db (db (settings rl))) evs"
    by blast
  then have "trace w' = trace w @ (SetExpiration l 0 # evs)"
    "list_all (sends_db (db (settings rl))) (SetExpiration l 0 # evs)"
    by (simp_all add: set_expiration_def sends_db_def)
  then show ?thesis by blast
qed

lemma extend_sends_db:
  assumes "extend rl existing d given clock env w = Some (w', out)"
  shows "\<exists>evs. trace w' = trace w @ evs \<and> list_all (sends_db (db (settings rl))) evs"
proof -
  let ?ex = "execute rl extendLock (resources (heap w existing))
      [Num (db (settings rl)), Str (lock_value (heap w existing)), Num d] given env w"
  from extend_cases [OF assms]
  consider "w' = w" | o1 where "?ex = Some (w', o1)"
    | w1 r where "?ex = Some (w1, Fulfilled r)"
        "trace w' = trace w1 @ [SetExpiration existing 0]"
    by auto
  then show ?thesis
  proof cases
    case 1
    then show ?thesis by simp
  next
    case 2
    from execute_sends_db [OF this] show ?thesis .
  next
    case 3
    from execute_sends_db [OF 3(1)] obtain evs where
      "trace w1 = trace w @ evs" "list_all (sends_db (db (settings rl))) evs" by blast
    with 3(2) have "trace w' = trace w @ (evs @ [SetExpiration existing 0])"
      "list_all (sends_db (db (settings rl))) (evs @ [SetExpiration existing 0])"
      by (simp_all add: sends_db_def)
    then show ?thesis by blast
  qed
qed

lemma acquire_db_opt:
  "sent (acquire rl res d (Some (p\<lparr>db_opt := x\<rparr>)) v env w)
     = sent (acquire rl res d (Some p) v env w)"
  by (simp add: acquire_def execute_db_opt effective_driftFactor_def new_Lock_def sent_def
      split: option.splits promise.splits prod.splits)

lemma extend_db_opt:
  "sent (extend rl existing d (Some (p\<lparr>db_opt := x\<rparr>)) clock env w)
     = sent (extend rl existing d (Some p) clock env w)"
  by (simp add: extend_def execute_db_opt effective_driftFactor_def new_Lock_def sent_def
      set_expiration_def Let_def split: option.splits promise.splits prod.splits)

text \<open>
  Claim C9. Every command that \<open>acquire\<close>, \<open>release\<close> or \<open>extend\<close> sends carries the
  instance's \<open>settings.db\<close> as its first argument, and a \<open>db\<close> in the per-call settings
  changes nothing in what is sent nor in what the call ends in.
\<close>

theorem db_is_the_instance_db:
  "(acquire rl res d given v env w = Some (w', out) \<longrightarrow>
      (\<exists>evs. trace w' = trace w @ evs \<and> list_all (sends_db (db (settings rl))) evs))
 \<and> (release rl l given env w = Some (w', out') \<longrightarrow>
      (\<exists>evs. trace w' = trace w @ evs \<and> list_all (sends_db (db (settings rl))) evs))
 \<and> (extend rl l d given clock env w = Some (w', out) \<longrightarrow>
      (\<exists>evs. trace w' = trace w @ evs \<and> list_all (sends_db (db (settings rl))) evs))
 \<and> sent (acquire rl res d (Some (p\<lparr>db_opt := x\<rparr>)) v env w)
      = sent (acquire rl res d (Some p) v env w)
 \<and> release rl l (Some (p\<lparr>db_opt := x\<rparr>)) env w = release rl l (Some p) env w
 \<and> sent (extend rl l d (Some (p\<lparr>db_opt := x\<rparr>)) clock env w)
      = sent (extend rl l d (Some p) clock env w)"
  using acquire_sends_db release_sends_db extend_sends_db acquire_db_opt extend_db_opt
  by (simp add: release_def execute_db_opt)

theorem db_is_the_instance_db_witness:
  "sent (acquire rl1 [''r''] 1000 (Some other_db) ''v'' (env_reply (ReplyNumber 1)) world1)
     = Some ([Call 0 acquireLock [''r''] [Num 0, Str ''v'', Num 1000]], Fulfilled 1)
 \<and> sent (acquire rl1 [''r''] 1000 (Some noSettings) ''v'' (env_reply (ReplyNumber 1)) world1)
     = Some ([Call 0 acquireLock [''r''] [Num 0, Str ''v'', Num 1000]], Fulfilled 1)
 \<and> list_all (sends_db (db (settings rl1)))
      [Call 0 acquireLock [''r''] [Num 0, Str ''v'', Num 1000]]"
proof -
  let ?a = "acquire rl1 [''r''] 1000 (Some noSettings) ''v'' (env_reply (ReplyNumber 1)) world1"
  have a: "?a = Some (world_after ?a, Fulfilled 1)"
    by (simp add: acquire_eval)
  have b: "trace (world_after ?a) = [Call 0 acquireLock [''r''] [Num 0, Str ''v'', Num 1000]]"
    by (simp add: acquire_eval)
  have c: "trace world1 = []" by (simp add: world1_def)
  note t = db_is_the_instance_db [where rl = rl1 and res = "[''r'']" and d = 1000
      and given = "Some noSettings" and v = "''v''" and env = "env_reply (ReplyNumber 1)"
      and w = world1 and w' = "world_after ?a" and out = "Fulfilled 1" and l = 0
      and out' = Pending and clock = 2000 and p = noSettings and x = "Some 7"]
  from t a b c have l: "list_all (sends_db (db (settings rl1)))
      [Call 0 acquireLock [''r''] [Num 0, Str ''v'', Num 1000]]" by auto
  have s: "sent ?a = Some ([Call 0 acquireLock [''r''] [Num 0, Str ''v'', Num 1000]], Fulfilled 1)"
    by (simp add: acquire_eval sent_def)
  from t s l show ?thesis by (simp add: other_db_def)
qed

subsection \<open>The vote of one attempt\<close>

text \<open>
  What holds of the tally at every moment of every attempt (a prefix of the settlements is
  itself a list of settlements): the sizes are those of the instance, every client is
  counted at most once and on one side only, the two counts add up to at most the number of
  clients, and the two thresholds are never both met.
\<close>

lemma attempt_tally:
  fixes rl scr keys args e
  defines "s \<equiv> stats (collect rl scr keys args e)"
  shows "membershipSize s = length (clients rl)"
    and "quorumSize s = length (clients rl) div 2 + 1"
    and "distinct (votesFor s)" and "distinct (map fst (votesAgainst s))"
    and "set (votesFor s) \<inter> fst ` set (votesAgainst s) = {}"
    and "set (votesFor s) \<union> fst ` set (votesAgainst s) \<subseteq> set (clients rl)"
    and "length (votesFor s) + length (votesAgainst s) \<le> membershipSize s"
    and "\<not> (quorumSize s \<le> length (votesFor s) \<and> quorumSize s \<le> length (votesAgainst s))"
proof -
  from collect_tally [of rl scr keys args e] obtain pending where
    ok: "tally_ok (clients rl) pending s" unfolding s_def by blast
  show m: "membershipSize s = length (clients rl)"
    and q: "quorumSize s = length (clients rl) div 2 + 1"
    by (simp_all add: s_def collect_sizes)
  from ok show "distinct (votesFor s)" "distinct (map fst (votesAgainst s))"
    "set (votesFor s) \<inter> fst ` set (votesAgainst s) = {}"
    "set (votesFor s) \<union> fst ` set (votesAgainst s) \<subseteq> set (clients rl)"
    by (auto simp: tally_ok_def voters_def)
  from tally_ok_bound [OF ok] m
  show b: "length (votesFor s) + length (votesAgainst s) \<le> membershipSize s" by simp
  from b m q
  show "\<not> (quorumSize s \<le> length (votesFor s) \<and> quorumSize s \<le> length (votesAgainst s))"
    by linarith
qed

lemma counting_step:
  assumes inv: "counting cl pending st" and c: "c \<in> set pending"
    and res: "(\<exists>n. res = VoteFor c n) \<or> (\<exists>e. res = VoteAgainst c e)"
  shows "counting cl (removeAll c pending) (onResultResolve st res)"
proof -
  let ?s = "stats st"
  let ?st' = "onResultResolve st res"
  from inv have ok: "tally_ok cl pending ?s"
    and sum: "length (votesFor ?s) + length (votesAgainst ?s) + card (set pending)
          = membershipSize ?s"
    and dec: "quorumSize ?s \<le> length (votesFor ?s) \<or> quorumSize ?s \<le> length (votesAgainst ?s)
          \<Longrightarrow> resolution st \<noteq> None"
    by (simp_all add: counting_def)
  from ok c have cf: "c \<notin> set (votesFor ?s)" and ca: "c \<notin> fst ` set (votesAgainst ?s)"
    by (auto simp: tally_ok_def voters_def)
  have card: "card (set (removeAll c pending)) = card (set pending) - 1" using c by simp
  have cpos: "0 < card (set pending)" using c by (auto simp: card_gt_0_iff)
  note ok' = tally_ok_step [OF ok c res]
  note sz = onResultResolve_sizes [of st res]
  from res show ?thesis
  proof
    assume "\<exists>n. res = VoteFor c n"
    then obtain n where r: "res = VoteFor c n" ..
    have vf: "votesFor (stats ?st') = votesFor ?s @ [c]"
      and va: "votesAgainst (stats ?st') = votesAgainst ?s"
      using cf by (simp_all add: r onResultResolve_def tally_def Let_def Set_add_def)
    have rs: "resolution ?st' \<noteq> None"
      if "quorumSize ?s \<le> Suc (length (votesFor ?s)) \<or> quorumSize ?s \<le> length (votesAgainst ?s)"
    proof (cases "quorumSize ?s \<le> length (votesFor ?s) \<or> quorumSize ?s \<le> length (votesAgainst ?s)")
      case True
      from dec [OF True] show ?thesis
        using cf by (auto simp: r onResultResolve_def tally_def Let_def Set_add_def resolve_def)
    next
      case False
      with that have "Suc (length (votesFor ?s)) = quorumSize ?s" by linarith
      then show ?thesis
        using cf by (auto simp: r onResultResolve_def tally_def Let_def Set_add_def resolve_def
            split: option.splits)
    qed
    show ?thesis
      unfolding counting_def using ok' sum card cpos rs by (simp add: vf va sz)
  next
    assume "\<exists>e. res = VoteAgainst c e"
    then obtain e where r: "res = VoteAgainst c e" ..
    have vf: "votesFor (stats ?st') = votesFor ?s"
      and va: "votesAgainst (stats ?st') = Map_set (votesAgainst ?s) c e"
      by (simp_all add: r onResultResolve_def tally_def Let_def)
    have len: "length (Map_set (votesAgainst ?s) c e) = Suc (length (votesAgainst ?s))"
      using ca by (simp add: length_Map_set)
    have rs: "resolution ?st' \<noteq> None"
      if "quorumSize ?s \<le> length (votesFor ?s) \<or> quorumSize ?s \<le> Suc (length (votesAgainst ?s))"
    proof (cases "quorumSize ?s \<le> length (votesFor ?s) \<or> quorumSize ?s \<le> length (votesAgainst ?s)")
      case True
      from dec [OF True] show ?thesis
        by (auto simp: r onResultResolve_def tally_def Let_def resolve_def len)
    next
      case False
      with that have "Suc (length (votesAgainst ?s)) = quorumSize ?s" by linarith
      then show ?thesis
        by (auto simp: r onResultResolve_def tally_def Let_def resolve_def len
            split: option.splits)
    qed
    show ?thesis
      unfolding counting_def using ok' sum card cpos rs by (simp add: vf va sz len)
  qed
qed

lemma settle_counting:
  assumes "counting cl pending st"
    and "set pending \<subseteq> fst ` set es"
    and "\<And>c r. (c, r) \<in> set es \<Longrightarrow> \<exists>res. attemptOperationOnClient c scr keys args r = Fulfilled res"
  shows "counting cl [] (settle scr keys args pending es st)"
  using assms
proof (induction es arbitrary: pending st)
  case Nil
  then show ?case by simp
next
  case (Cons a es)
  obtain c r where a: "a = (c, r)" by (cases a)
  have votes: "\<And>c r. (c, r) \<in> set es \<Longrightarrow>
      \<exists>res. attemptOperationOnClient c scr keys args r = Fulfilled res"
    using Cons.prems(3) by simp
  show ?case
  proof (cases "c \<in> set pending")
    case False
    have "set pending \<subseteq> fst ` set es" using Cons.prems(2) False a by auto
    from Cons.IH [OF Cons.prems(1) this votes] False a show ?thesis by simp
  next
    case True
    from Cons.prems(3) [of c r] a obtain res where
      res: "attemptOperationOnClient c scr keys args r = Fulfilled res" by auto
    have sub: "set (removeAll c pending) \<subseteq> fst ` set es" using Cons.prems(2) a by auto
    from Cons.IH [OF counting_step [OF Cons.prems(1) True attemptOperationOnClient_client [OF res]]
        sub votes] True a res
    show ?thesis by simp
  qed
qed

text \<open>
  When every client of the instance answers with a vote, the attempt is decided unless the
  number of clients is even and the vote is tied.
\<close>

lemma decided_unless_tied:
  assumes "distinct (clients rl)"
    and "set (clients rl) \<subseteq> fst ` set (settles e)"
    and "\<And>c r. (c, r) \<in> set (settles e) \<Longrightarrow>
           \<exists>res. attemptOperationOnClient c scr keys args r = Fulfilled res"
  shows "decision rl scr keys args e \<noteq> None
       \<or> (even (length (clients rl))
           \<and> length (votesFor (stats (collect rl scr keys args e))) = length (clients rl) div 2
           \<and> length (votesAgainst (stats (collect rl scr keys args e))) = length (clients rl) div 2)"
proof -
  let ?st = "collect rl scr keys args e"
  have "counting (clients rl) (clients rl) (initial_state rl)"
    using assms(1)
    by (simp add: counting_def tally_ok_def voters_def initial_state_def distinct_card)
  from settle_counting [OF this assms(2) assms(3)]
  have c: "counting (clients rl) [] ?st" by (simp add: collect_def)
  have sz: "membershipSize (stats ?st) = length (clients rl)"
    "quorumSize (stats ?st) = length (clients rl) div 2 + 1"
    by (simp_all add: collect_sizes)
  from c sz have sum: "length (votesFor (stats ?st)) + length (votesAgainst (stats ?st))
      = length (clients rl)"
    and dec: "length (clients rl) div 2 + 1 \<le> length (votesFor (stats ?st))
        \<or> length (clients rl) div 2 + 1 \<le> length (votesAgainst (stats ?st))
        \<Longrightarrow> resolution ?st \<noteq> None"
    by (simp_all add: counting_def)
  show ?thesis
  proof (cases "resolution ?st = None")
    case False
    then show ?thesis by (simp add: decision_def)
  next
    case True
    with dec have "\<not> (length (clients rl) div 2 + 1 \<le> length (votesFor (stats ?st))
        \<or> length (clients rl) div 2 + 1 \<le> length (votesAgainst (stats ?st)))" by blast
    then have "length (votesFor (stats ?st)) \<le> length (clients rl) div 2"
      "length (votesAgainst (stats ?st)) \<le> length (clients rl) div 2" by linarith+
    with sum show ?thesis by presburger
  qed
qed

text \<open>
  Claim C7, at the input where the code departs from it. Two servers, one vote for and one
  against: every vote is in (the statistics promise is fulfilled), the quorum size is 2,
  neither count equals it, and the attempt's promise is never resolved. The attempt has no
  decision, where the claim says it has exactly one. The rest of the claim holds
  (\<open>attempt_tally\<close>), and a tie over an even number of clients is the only way for an
  attempt with every vote in to stay undecided (\<open>decided_unless_tied\<close>).
\<close>

theorem split_vote_no_decision:
  "constructor [0, 1] noSettings = Inr rl2
 \<and> collect rl2 acquireLock [''r''] [Num 0, Str ''v'', Num 1000] (env_split 0)
     = \<lparr>stats = \<lparr>membershipSize = 2, quorumSize = 2, votesFor = [0],
                 votesAgainst = [(1, ResourceLockedError 0 1)]\<rparr>,
        resolution = None, completed = True\<rparr>
 \<and> decision rl2 acquireLock [''r''] [Num 0, Str ''v'', Num 1000] (env_split 0) = None
 \<and> snd (attemptOperation rl2 acquireLock [''r''] [Num 0, Str ''v'', Num 1000] env_split world1)
     = None"
  by (simp add: constructor_def new_Set_def Set_add_def pick_def pick_db_def noSettings_def
      rl2_def defaultSettings_def env_split_def attempt_defs decision_def Let_def)

subsection \<open>The budget of attempts\<close>

text \<open>
  With \<open>retryCount = k\<close>, a call that ends (in whatever way) has made at most \<open>k + 1\<close>
  attempts; when each attempt is decided against, the call throws \<open>ExecutionError\<close> with
  \<open>k + 1\<close> statistics promises.
\<close>

lemma execute_at_most:
  assumes "retryCount (merge (settings rl) given) = real k"
    and "execute rl command keys args given env w = Some (w', out)"
  shows "tick w' - tick w \<le> k + 1"
proof -
  let ?s = "merge (settings rl) given"
  have m: "maxAttempts ?s = Some (real k + 1)" using assms(1) by (simp add: maxAttempts_def)
  have "execute_loop rl command keys args (Some (real k + 1)) (retryDelay ?s) (retryJitter ?s)
      env [] w = Some (w', out)"
    using assms(2) by (simp add: execute_def Let_def m)
  from execute_loop_result [OF this]
  have le: "tick w \<le> tick w'"
    and b: "\<And>n. tick w' = Suc (tick w + n) \<Longrightarrow> below n (Some (real k + 1))" by auto
  show ?thesis
  proof (cases "tick w' = tick w")
    case True
    then show ?thesis by simp
  next
    case False
    with le have "tick w' = Suc (tick w + (tick w' - tick w - 1))" by simp
    from b [OF this] show ?thesis by (simp add: below_def)
  qed
qed

lemma execute_exhausted:
  assumes "retryCount (merge (settings rl) given) = real k"
    and "\<And>i. i \<le> k \<Longrightarrow> decision rl command keys args (env (tick w + i)) = Some Against"
  shows "\<exists>w' sts. execute rl command keys args given env w
           = Some (w', Rejected (ExecutionError quorum_failed sts))
         \<and> length sts = k + 1 \<and> tick w' = tick w + (k + 1)"
proof -
  let ?s = "merge (settings rl) given"
  have m: "maxAttempts ?s = Some (real k + 1)" using assms(1) by (simp add: maxAttempts_def)
  from execute_loop_exhausted [of k rl command keys args env w "retryDelay ?s" "retryJitter ?s",
      OF assms(2)]
  show ?thesis by (simp add: execute_def Let_def m)
qed

text \<open>
  Over an odd number of servers that all answer with a vote, the claim holds as stated: with
  \<open>retryCount = k\<close> and no attempt decided for, the call throws \<open>ExecutionError\<close> with
  \<open>k + 1\<close> statistics promises.
\<close>

lemma execute_throws_when_odd:
  assumes "distinct (clients rl)" and "odd (length (clients rl))"
    and "retryCount (merge (settings rl) given) = real k"
    and "\<And>i. i \<le> k \<Longrightarrow> set (clients rl) \<subseteq> fst ` set (settles (env (tick w + i)))"
    and "\<And>i c r. i \<le> k \<Longrightarrow> (c, r) \<in> set (settles (env (tick w + i))) \<Longrightarrow>
           \<exists>res. attemptOperationOnClient c command keys args r = Fulfilled res"
    and "\<And>i. i \<le> k \<Longrightarrow> decision rl command keys args (env (tick w + i)) \<noteq> Some For"
  shows "\<exists>w' sts. execute rl command keys args given env w
           = Some (w', Rejected (ExecutionError quorum_failed sts))
         \<and> length sts = k + 1"
proof -
  have "decision rl command keys args (env (tick w + i)) = Some Against" if "i \<le> k" for i
  proof -
    from decided_unless_tied [OF assms(1) assms(4) [OF that] assms(5) [OF that]] assms(2)
    have "decision rl command keys args (env (tick w + i)) \<noteq> None" by blast
    then obtain v where v: "decision rl command keys args (env (tick w + i)) = Some v" by blast
    with assms(6) [OF that] have "v \<noteq> For" by simp
    then have "v = Against" by (cases v) simp_all
    with v show ?thesis by simp
  qed
  from execute_exhausted [where env = env and w = w, OF assms(3) this] show ?thesis by blast
qed

text \<open>
  With \<open>retryCount = -1\<close> there is no bound: the call goes on until an attempt is decided
  for, after any number of attempts decided against, and never returns when there is none.
\<close>

lemma execute_unbounded:
  assumes "retryCount (merge (settings rl) given) = - 1"
  shows "(\<forall>i<n. decision rl command keys args (env (tick w + i)) = Some Against) \<Longrightarrow>
         decision rl command keys args (env (tick w + n)) = Some For \<Longrightarrow>
         \<exists>w' r. execute rl command keys args given env w = Some (w', Fulfilled r)
           \<and> length (attempts r) = n + 1"
    and "(\<forall>i. decision rl command keys args (env (tick w + i)) = Some Against) \<Longrightarrow>
         execute rl command keys args given env w = None"
proof -
  let ?s = "merge (settings rl) given"
  have m: "maxAttempts ?s = None" using assms by (simp add: maxAttempts_def)
  show "\<exists>w' r. execute rl command keys args given env w = Some (w', Fulfilled r)
           \<and> length (attempts r) = n + 1"
    if "\<forall>i<n. decision rl command keys args (env (tick w + i)) = Some Against"
      and "decision rl command keys args (env (tick w + n)) = Some For"
    using execute_loop_unbounded_success [of n rl command keys args env w
        "retryDelay ?s" "retryJitter ?s"] that
    by (auto simp: execute_def Let_def m)
  show "execute rl command keys args given env w = None"
    if "\<forall>i. decision rl command keys args (env (tick w + i)) = Some Against"
    using execute_loop_unbounded_diverges [of rl command keys args env w
        "retryDelay ?s" "retryJitter ?s"] that
    by (simp add: execute_def Let_def m)
qed

text \<open>
  Claim C6, at the input where the code departs from it. Two servers, \<open>retryCount = 0\<close>,
  one vote for and one against: no attempt reaches a quorum for, yet the call does not throw
  \<open>ExecutionError\<close> with one attempt. The first attempt is never decided, so the call
  stays pending; \<open>acquire\<close> stays pending with it. Apart from such ties the claim holds:
  \<open>execute_at_most\<close>, \<open>execute_exhausted\<close>, \<open>execute_throws_when_odd\<close> and
  \<open>execute_unbounded\<close>.
\<close>

theorem split_vote_never_throws:
  "retryCount (merge (settings rl2) (retries 0)) = 0
 \<and> outcome (execute rl2 acquireLock [''r''] [Num 0, Str ''v'', Num 1000] (retries 0)
       env_split world1) = Some Pending
 \<and> tick (world_after (execute rl2 acquireLock [''r''] [Num 0, Str ''v'', Num 1000] (retries 0)
       env_split world1)) = 1
 \<and> outcome (acquire rl2 [''r''] 1000 (retries 0) ''v'' env_split world1) = Some Pending"
  by (simp add: acquire_eval rl2_def env_split_def)

end
